theory Spec2Isabelle
  imports Main "HOL-Library.AList"
begin

section \<open>Chest: a dictionary that spills to disk (chest/core.py)\<close>

text \<open>
  The embedding follows \<^verbatim>\<open>src/chest/core.py\<close> function by function.

  \<^item> A \<^verbatim>\<open>Chest\<close> object and the directory it owns are one record that every method takes
    and returns. A method mutates the object in place, so the state after a raise is the
    state as mutated up to the raise: every method returns its outcome (\<open>Inl\<close> the error,
    \<open>Inr\<close> the value) together with the state it leaves behind.
  \<^item> \<^verbatim>\<open>self.inmem\<close> is an association list in insertion order (\<open>AList.update\<close> replaces in
    place or appends, \<open>AList.delete\<close> removes): the order decides which of two values of
    the same size \<^verbatim>\<open>sorted(...)\<close> puts last. \<^verbatim>\<open>self._keys\<close> is a duplicate-free list; the
    list records the elements of the set, and nothing depends on its order but through
    the parameter \<open>order\<close>.
  \<^item> The directory at \<^verbatim>\<open>self.path\<close> is a map from file names to contents (bytes as a
    \<open>string\<close>). \<^verbatim>\<open>os.path.join(self.path, name)\<close> is the entry \<open>name\<close> of that map. The
    directory is touched by this object only, and opening a file for writing or removing
    an existing file always succeeds.
  \<^item> The objects handed to \<^verbatim>\<open>dump\<close> and returned by \<^verbatim>\<open>load\<close> are values of \<open>pyobj\<close>: an
    opaque value or a list of keys (what \<^verbatim>\<open>write_keys\<close> dumps).
  \<^item> \<^verbatim>\<open>dump\<close> writes to an open stream and may raise part way: its model returns the bytes
    that reached the file and whether it raised. \<^verbatim>\<open>load\<close> returns \<open>None\<close> when it raises.
  \<^item> \<^verbatim>\<open>nbytes\<close> (an attribute lookup or \<^verbatim>\<open>sys.getsizeof\<close>) and the builtin \<^verbatim>\<open>hash\<close> lie
    outside the program: they are parameters. So are three facts about Python values that
    the methods depend on: \<open>tuple_len\<close>, the length of a key that is a tuple (\<open>None\<close> for
    any other key), which decides whether \<^verbatim>\<open>"Key not found: %s" % key\<close> can be formatted;
    \<open>order\<close>, the order in which Python iterates over the elements of a set, which
    decides the list that \<^verbatim>\<open>list(self._keys)\<close> hands to \<^verbatim>\<open>dump\<close>; and \<open>elements\<close>, the elements
    of an opaque value that can be iterated over, which \<^verbatim>\<open>set(...)\<close> collects.
  \<^item> Errors are named by their origin. \<open>KeyNotFound\<close> is the \<^verbatim>\<open>KeyError\<close> of the object's own
    lookups and of \<^verbatim>\<open>_keys.remove\<close>; \<open>IOFailure\<close> is \<^verbatim>\<open>open(fn, 'r')\<close> on a file that does not
    exist; \<open>SerializationFailure\<close> is whatever \<^verbatim>\<open>dump\<close> or \<^verbatim>\<open>load\<close> raises; \<open>TypeFailure\<close> is
    Python's \<^verbatim>\<open>TypeError\<close>: the \<^verbatim>\<open>%\<close> of \<^verbatim>\<open>__getitem__\<close> applied to a tuple that has not exactly
    one element, and \<^verbatim>\<open>set(...)\<close> applied to a loaded manifest that cannot be iterated over.
  \<^item> The stream mode (\<^verbatim>\<open>'b'\<close> or \<^verbatim>\<open>'t'\<close>) has no counterpart: a file holds the bytes that
    \<^verbatim>\<open>dump\<close> wrote. \<^verbatim>\<open>drop\<close> and \<^verbatim>\<open>__del__\<close> are not modelled. \<^verbatim>\<open>__iter__\<close> yields the
    elements of \<open>u_keys\<close>, \<^verbatim>\<open>__contains__\<close> is \<open>contains\<close> and \<^verbatim>\<open>__len__\<close> is \<open>len\<close>.
\<close>

type_synonym bytes = string

datatype error = KeyNotFound | IOFailure | SerializationFailure | TypeFailure

datatype ('k, 'a) pyobj = Atom 'a | PyList "'k list"

datatype dumped = Written bytes | Broken bytes

record ('k, 'a) chest =
  inmem :: "('k \<times> ('k, 'a) pyobj) list"
  u_keys :: "'k list"
  explicitly_given_path :: bool
  files :: "string \<rightharpoonup> bytes"
  available_memory :: int
  load :: "bytes \<Rightarrow> ('k, 'a) pyobj option"
  dump :: "('k, 'a) pyobj \<Rightarrow> dumped"
  u_key_to_filename :: "'k \<Rightarrow> string"

text \<open>\<^verbatim>\<open>DEFAULT_AVAILABLE_MEMORY = 1e9\<close>, as a number of bytes.\<close>

definition DEFAULT_AVAILABLE_MEMORY :: int where
  "DEFAULT_AVAILABLE_MEMORY = 1000000000"

subsection \<open>The default file name of a key\<close>

text \<open>
  \<^verbatim>\<open>re.match('^[_a-zA-Z]\w*$', key)\<close>: the first character is an underscore or an ASCII
  letter, word characters follow, and \<^verbatim>\<open>$\<close> matches at the end of the string or just before
  a newline that ends the string. A \<open>string\<close> is a string of bytes, and \<^verbatim>\<open>\w\<close> is
  \<^verbatim>\<open>[a-zA-Z0-9_]\<close>, as it is for the byte strings that are Python 2's \<^verbatim>\<open>str\<close>. On the
  ASCII strings the model is exact for Python 3 as well; there \<^verbatim>\<open>\w\<close> also matches
  letters and digits beyond ASCII, which this model does not represent.
\<close>

definition is_letter :: "char \<Rightarrow> bool" where
  "is_letter c =
     (let n = (of_char c :: nat) in (65 \<le> n \<and> n \<le> 90) \<or> (97 \<le> n \<and> n \<le> 122))"

definition is_digit :: "char \<Rightarrow> bool" where
  "is_digit c = (let n = (of_char c :: nat) in 48 \<le> n \<and> n \<le> 57)"

definition is_first :: "char \<Rightarrow> bool" where
  "is_first c = (c = CHR ''_'' \<or> is_letter c)"

definition is_word :: "char \<Rightarrow> bool" where
  "is_word c = (is_letter c \<or> is_digit c \<or> c = CHR ''_'')"

fun match_rest :: "string \<Rightarrow> bool" where
  "match_rest [] = True"
| "match_rest (c # cs) = (if is_word c then match_rest cs else c = CHR 0x0A \<and> cs = [])"

definition re_match :: "string \<Rightarrow> bool" where
  "re_match key = (case key of [] \<Rightarrow> False | c # cs \<Rightarrow> is_first c \<and> match_rest cs)"

text \<open>\<^verbatim>\<open>str(n)\<close> for \<open>n \<ge> 0\<close>: the decimal digits, most significant first.\<close>

definition digit_char :: "nat \<Rightarrow> char" where
  "digit_char d = ''0123456789'' ! d"

function str_nat :: "nat \<Rightarrow> string" where
  "str_nat n = (if n < 10 then [digit_char n] else str_nat (n div 10) @ [digit_char (n mod 10)])"
  by pat_completeness auto
termination
  by (relation "measure (\<lambda>n. n)") auto

declare str_nat.simps [simp del]

text \<open>A key is a \<^verbatim>\<open>str\<close>, a tuple of keys or some other hashable object.\<close>

datatype 'a pykey = PyStr string | PyTuple "'a pykey list" | PyOther 'a

fun key_to_filename :: "('a pykey \<Rightarrow> int) \<Rightarrow> 'a pykey \<Rightarrow> string" where
  "key_to_filename hash (PyStr key) =
     (if re_match key then key else str_nat (nat (abs (hash (PyStr key)))))"
| "key_to_filename hash (PyTuple ks) = str_nat (nat (abs (hash (PyTuple ks))))"
| "key_to_filename hash (PyOther x) = str_nat (nat (abs (hash (PyOther x))))"

text \<open>\<^verbatim>\<open>len(key)\<close> for a key that is a tuple.\<close>

fun pykey_len :: "'a pykey \<Rightarrow> nat option" where
  "pykey_len (PyTuple ks) = Some (length ks)"
| "pykey_len (PyStr key) = None"
| "pykey_len (PyOther x) = None"

text \<open>
  The identifier pattern in the words of the specification: letters, digits and
  underscores, not starting with a digit.
\<close>

definition is_identifier :: "string \<Rightarrow> bool" where
  "is_identifier key = (case key of [] \<Rightarrow> False | c # cs \<Rightarrow> is_first c \<and> list_all is_word cs)"

subsection \<open>Construction\<close>

text \<open>
  \<open>path\<close> is \<open>None\<close> when no path is given (\<^verbatim>\<open>tempfile.mkdtemp\<close> then makes a new, empty
  directory); otherwise it is what the file system holds at the given path: \<open>None\<close> when
  nothing exists there (\<^verbatim>\<open>os.mkdir\<close> then makes the directory), or the files of the
  directory. \<^verbatim>\<open>set(self.load(f))\<close> iterates over what the manifest loads to: \<open>elements\<close>
  gives the elements of an opaque value, or \<open>None\<close> when Python cannot iterate over it.
\<close>

definition chest_init ::
  "('a \<Rightarrow> 'k list option) \<Rightarrow>
   ('k \<times> ('k, 'a) pyobj) list option \<Rightarrow> (string \<rightharpoonup> bytes) option option \<Rightarrow> int option \<Rightarrow>
   (('k, 'a) pyobj \<Rightarrow> dumped) \<Rightarrow> (bytes \<Rightarrow> ('k, 'a) pyobj option) \<Rightarrow> ('k \<Rightarrow> string) \<Rightarrow>
   error + ('k, 'a) chest" where
  "chest_init elements data path avail dmp ld k2f =
     (let self = \<lparr> inmem = (case data of None \<Rightarrow> [] | Some d \<Rightarrow> d),
                   u_keys = [],
                   explicitly_given_path = (path \<noteq> None),
                   files = Map.empty,
                   available_memory = (case avail of None \<Rightarrow> DEFAULT_AVAILABLE_MEMORY | Some m \<Rightarrow> m),
                   load = ld, dump = dmp, u_key_to_filename = k2f \<rparr>;
          dir = (case path of None \<Rightarrow> Some Map.empty | Some d \<Rightarrow> d)
      in case dir of
           None \<Rightarrow> Inr self
         | Some fs \<Rightarrow>
             (case fs ''.keys'' of
                None \<Rightarrow> Inr (self\<lparr>files := fs\<rparr>)
              | Some bs \<Rightarrow>
                  (case ld bs of
                     None \<Rightarrow> Inl SerializationFailure
                   | Some (Atom a) \<Rightarrow>
                       (case elements a of
                          None \<Rightarrow> Inl TypeFailure
                        | Some ks \<Rightarrow> Inr (self\<lparr>files := fs, u_keys := remdups ks\<rparr>))
                   | Some (PyList ks) \<Rightarrow> Inr (self\<lparr>files := fs, u_keys := remdups ks\<rparr>))))"

subsection \<open>Moving values between memory and disk\<close>

text \<open>
  \<^verbatim>\<open>move_to_disk\<close>: \<^verbatim>\<open>open(fn, 'w')\<close> creates or empties the file, then \<^verbatim>\<open>self.inmem[key]\<close> is
  looked up, then \<^verbatim>\<open>dump\<close> writes; \<^verbatim>\<open>del self.inmem[key]\<close> runs after the \<^verbatim>\<open>with\<close> block.
\<close>

definition move_to_disk :: "'k \<Rightarrow> ('k, 'a) chest \<Rightarrow> (error + unit) \<times> ('k, 'a) chest" where
  "move_to_disk key s =
     (let fn = u_key_to_filename s key in
      case map_of (inmem s) key of
        None \<Rightarrow> (Inl KeyNotFound, s\<lparr>files := (files s)(fn \<mapsto> [])\<rparr>)
      | Some v \<Rightarrow>
          (case dump s v of
             Broken bs \<Rightarrow> (Inl SerializationFailure, s\<lparr>files := (files s)(fn \<mapsto> bs)\<rparr>)
           | Written bs \<Rightarrow>
               (Inr (), s\<lparr>files := (files s)(fn \<mapsto> bs), inmem := AList.delete key (inmem s)\<rparr>)))"

definition get_from_disk :: "'k \<Rightarrow> ('k, 'a) chest \<Rightarrow> (error + unit) \<times> ('k, 'a) chest" where
  "get_from_disk key s =
     (if map_of (inmem s) key \<noteq> None then (Inr (), s)
      else case files s (u_key_to_filename s key) of
             None \<Rightarrow> (Inl IOFailure, s)
           | Some bs \<Rightarrow>
               (case load s bs of
                  None \<Rightarrow> (Inl SerializationFailure, s)
                | Some v \<Rightarrow> (Inr (), s\<lparr>inmem := AList.update key v (inmem s)\<rparr>)))"

subsection \<open>Eviction\<close>

definition memory_usage :: "(('k, 'a) pyobj \<Rightarrow> int) \<Rightarrow> ('k, 'a) chest \<Rightarrow> int" where
  "memory_usage nbytes s = sum_list (map nbytes (map snd (inmem s)))"

text \<open>
  The \<^verbatim>\<open>while\<close> loop of \<^verbatim>\<open>shrink\<close>. The local list \<^verbatim>\<open>inmem\<close> is held with its last element
  first, so that \<^verbatim>\<open>inmem.pop()\<close> takes the head.
\<close>

fun shrink_loop ::
  "(('k, 'a) pyobj \<Rightarrow> int) \<Rightarrow> ('k \<times> ('k, 'a) pyobj) list \<Rightarrow> int \<Rightarrow> ('k, 'a) chest \<Rightarrow>
   (error + unit) \<times> ('k, 'a) chest" where
  "shrink_loop nbytes [] mem s = (Inr (), s)"
| "shrink_loop nbytes ((key, data) # rest) mem s =
     (if mem > available_memory s then
        (case move_to_disk key s of
           (Inl e, s') \<Rightarrow> (Inl e, s')
         | (Inr _, s') \<Rightarrow> shrink_loop nbytes rest (mem - nbytes data) s')
      else (Inr (), s))"

definition shrink ::
  "(('k, 'a) pyobj \<Rightarrow> int) \<Rightarrow> ('k, 'a) chest \<Rightarrow> (error + unit) \<times> ('k, 'a) chest" where
  "shrink nbytes s =
     (let mem = memory_usage nbytes s in
      if mem < available_memory s then (Inr (), s)
      else shrink_loop nbytes (rev (sort_key (\<lambda>kv. nbytes (snd kv)) (inmem s))) mem s)"

subsection \<open>The mapping interface\<close>

text \<open>
  \<^verbatim>\<open>"Key not found: %s" % key\<close>: when the right operand of \<^verbatim>\<open>%\<close> is a tuple, its elements are
  the arguments of the format, and one \<^verbatim>\<open>%s\<close> takes exactly one; any other number raises
  \<^verbatim>\<open>TypeError\<close>. A key that is not a tuple is the one argument.
\<close>

definition formats :: "('k \<Rightarrow> nat option) \<Rightarrow> 'k \<Rightarrow> bool" where
  "formats tuple_len key = (case tuple_len key of None \<Rightarrow> True | Some n \<Rightarrow> n = 1)"

text \<open>
  \<^verbatim>\<open>__getitem__\<close>: a value in memory is returned at once; otherwise the key must be in
  \<^verbatim>\<open>_keys\<close>, its value is loaded, looked up and returned after \<^verbatim>\<open>shrink\<close> has run. For a key
  that is not in \<^verbatim>\<open>_keys\<close> the message of the \<^verbatim>\<open>KeyError\<close> is formatted before the error is
  raised.
\<close>

definition getitem ::
  "('k \<Rightarrow> nat option) \<Rightarrow> (('k, 'a) pyobj \<Rightarrow> int) \<Rightarrow> 'k \<Rightarrow> ('k, 'a) chest \<Rightarrow>
   (error + ('k, 'a) pyobj) \<times> ('k, 'a) chest" where
  "getitem tuple_len nbytes key s =
     (case map_of (inmem s) key of
        Some v \<Rightarrow> (Inr v, s)
      | None \<Rightarrow>
          if key \<notin> set (u_keys s)
          then (if formats tuple_len key then (Inl KeyNotFound, s) else (Inl TypeFailure, s))
          else (case get_from_disk key s of
                  (Inl e, s1) \<Rightarrow> (Inl e, s1)
                | (Inr _, s1) \<Rightarrow>
                    (case map_of (inmem s1) key of
                       None \<Rightarrow> (Inl KeyNotFound, s1)
                     | Some result \<Rightarrow>
                         (case shrink nbytes s1 of
                            (Inl e, s2) \<Rightarrow> (Inl e, s2)
                          | (Inr _, s2) \<Rightarrow> (Inr result, s2)))))"

text \<open>
  \<^verbatim>\<open>__delitem__\<close>: the in-memory entry and the file go first, \<^verbatim>\<open>self._keys.remove(key)\<close>
  comes last and raises when the key is not in the set.
\<close>

definition delitem :: "'k \<Rightarrow> ('k, 'a) chest \<Rightarrow> (error + unit) \<times> ('k, 'a) chest" where
  "delitem key s =
     (let s1 = (if map_of (inmem s) key \<noteq> None
                then s\<lparr>inmem := AList.delete key (inmem s)\<rparr> else s);
          fn = u_key_to_filename s1 key;
          s2 = (if files s1 fn \<noteq> None then s1\<lparr>files := (files s1)(fn := None)\<rparr> else s1)
      in if key \<in> set (u_keys s2)
         then (Inr (), s2\<lparr>u_keys := removeAll key (u_keys s2)\<rparr>)
         else (Inl KeyNotFound, s2))"

text \<open>
  The two assignments of \<^verbatim>\<open>__setitem__\<close> between the deletion and the shrink:
  \<^verbatim>\<open>self.inmem[key] = value\<close> and \<^verbatim>\<open>self._keys.add(key)\<close>.
\<close>

definition insert_item :: "'k \<Rightarrow> ('k, 'a) pyobj \<Rightarrow> ('k, 'a) chest \<Rightarrow> ('k, 'a) chest" where
  "insert_item key v s =
     s\<lparr>inmem := AList.update key v (inmem s),
       u_keys := (if key \<in> set (u_keys s) then u_keys s else u_keys s @ [key])\<rparr>"

definition setitem ::
  "(('k, 'a) pyobj \<Rightarrow> int) \<Rightarrow> 'k \<Rightarrow> ('k, 'a) pyobj \<Rightarrow> ('k, 'a) chest \<Rightarrow>
   (error + unit) \<times> ('k, 'a) chest" where
  "setitem nbytes key v s =
     (if key \<in> set (u_keys s) then
        (case delitem key s of
           (Inl e, s1) \<Rightarrow> (Inl e, s1)
         | (Inr _, s1) \<Rightarrow> shrink nbytes (insert_item key v s1))
      else shrink nbytes (insert_item key v s))"

definition contains :: "'k \<Rightarrow> ('k, 'a) chest \<Rightarrow> bool" where
  "contains key s = (key \<in> set (u_keys s))"

definition len :: "('k, 'a) chest \<Rightarrow> nat" where
  "len s = length (u_keys s)"

subsection \<open>Flushing\<close>

text \<open>
  \<^verbatim>\<open>write_keys\<close> dumps \<^verbatim>\<open>list(self._keys)\<close>: the elements of the set in the order in which
  Python iterates over them.
\<close>

definition write_keys ::
  "('k list \<Rightarrow> 'k list) \<Rightarrow> ('k, 'a) chest \<Rightarrow> (error + unit) \<times> ('k, 'a) chest" where
  "write_keys order s =
     (case dump s (PyList (order (u_keys s))) of
        Broken bs \<Rightarrow> (Inl SerializationFailure, s\<lparr>files := (files s)(''.keys'' \<mapsto> bs)\<rparr>)
      | Written bs \<Rightarrow> (Inr (), s\<lparr>files := (files s)(''.keys'' \<mapsto> bs)\<rparr>))"

fun flush_loop :: "'k list \<Rightarrow> ('k, 'a) chest \<Rightarrow> (error + unit) \<times> ('k, 'a) chest" where
  "flush_loop [] s = (Inr (), s)"
| "flush_loop (key # rest) s =
     (case move_to_disk key s of
        (Inl e, s') \<Rightarrow> (Inl e, s')
      | (Inr _, s') \<Rightarrow> flush_loop rest s')"

definition flush ::
  "('k list \<Rightarrow> 'k list) \<Rightarrow> ('k, 'a) chest \<Rightarrow> (error + unit) \<times> ('k, 'a) chest" where
  "flush order s =
     (case flush_loop (map fst (inmem s)) s of
        (Inl e, s') \<Rightarrow> (Inl e, s')
      | (Inr _, s') \<Rightarrow> write_keys order s')"

subsection \<open>Sequences of calls\<close>

text \<open>
  The calls of the mapping interface a caller can make, and the state a call leaves
  behind whether it returns or raises.
\<close>

datatype ('k, 'a) call = Write 'k "('k, 'a) pyobj" | Read 'k | Delete 'k | Flush

fun perform ::
  "('k \<Rightarrow> nat option) \<Rightarrow> ('k list \<Rightarrow> 'k list) \<Rightarrow> (('k, 'a) pyobj \<Rightarrow> int) \<Rightarrow>
   ('k, 'a) chest \<Rightarrow> ('k, 'a) call \<Rightarrow> ('k, 'a) chest" where
  "perform tuple_len order nbytes s (Write key v) = snd (setitem nbytes key v s)"
| "perform tuple_len order nbytes s (Read key) = snd (getitem tuple_len nbytes key s)"
| "perform tuple_len order nbytes s (Delete key) = snd (delitem key s)"
| "perform tuple_len order nbytes s Flush = snd (flush order s)"

definition perform_all ::
  "('k \<Rightarrow> nat option) \<Rightarrow> ('k list \<Rightarrow> 'k list) \<Rightarrow> (('k, 'a) pyobj \<Rightarrow> int) \<Rightarrow>
   ('k, 'a) call list \<Rightarrow> ('k, 'a) chest \<Rightarrow> ('k, 'a) chest" where
  "perform_all tuple_len order nbytes cs s = foldl (perform tuple_len order nbytes) s cs"

text \<open>Where a key lives: in memory, and in a file of the directory.\<close>

definition in_memory :: "('k, 'a) chest \<Rightarrow> 'k \<Rightarrow> bool" where
  "in_memory s key = (map_of (inmem s) key \<noteq> None)"

definition has_file :: "('k, 'a) chest \<Rightarrow> 'k \<Rightarrow> bool" where
  "has_file s key = (files s (u_key_to_filename s key) \<noteq> None)"


subsection \<open>Notions used in the proofs\<close>

text \<open>The fields no method assigns after construction, and the key set, agree in two states.\<close>

definition same_config :: "('k, 'a) chest \<Rightarrow> ('k, 'a) chest \<Rightarrow> bool" where
  "same_config s s' =
     (u_keys s' = u_keys s \<and> available_memory s' = available_memory s \<and> dump s' = dump s \<and>
      load s' = load s \<and> u_key_to_filename s' = u_key_to_filename s)"

text \<open>
  The local list of \<^verbatim>\<open>shrink\<close> while the loop runs: its keys are distinct and each is in
  memory with the value listed.
\<close>

definition victims_ok :: "('k \<times> ('k, 'a) pyobj) list \<Rightarrow> ('k, 'a) chest \<Rightarrow> bool" where
  "victims_ok stack s =
     (distinct (map fst stack) \<and> (\<forall>(k, v) \<in> set stack. map_of (inmem s) k = Some v))"


text \<open>No two keys share a file name, and no key is named like the manifest.\<close>

definition names_ok :: "('k, 'a) chest \<Rightarrow> bool" where
  "names_ok s = (inj (u_key_to_filename s) \<and> (\<forall>k. u_key_to_filename s k \<noteq> ''.keys''))"

text \<open>Every key in memory is in the key set.\<close>

definition mem_tracked :: "('k, 'a) chest \<Rightarrow> bool" where
  "mem_tracked s = (\<forall>k. in_memory s k \<longrightarrow> k \<in> set (u_keys s))"

text \<open>The serializer never raises.\<close>

definition dump_total :: "('k, 'a) chest \<Rightarrow> bool" where
  "dump_total s = (\<forall>x. \<exists>bs. dump s x = Written bs)"

subsection \<open>Sample stores\<close>

text \<open>
  Keys are characters, values are strings. The size of a value is its length, a value is
  dumped as a tag byte followed by its content, and the file of the key \<open>c\<close> is named \<open>c\<close>.
\<close>

definition ex_nbytes :: "(char, string) pyobj \<Rightarrow> int" where
  "ex_nbytes v = (case v of Atom a \<Rightarrow> int (length a) | PyList ks \<Rightarrow> int (length ks))"

definition ex_dump :: "(char, string) pyobj \<Rightarrow> dumped" where
  "ex_dump v = (case v of Atom a \<Rightarrow> Written (CHR ''A'' # a) | PyList ks \<Rightarrow> Written (CHR ''L'' # ks))"

definition ex_load :: "bytes \<Rightarrow> (char, string) pyobj option" where
  "ex_load bs =
     (case bs of
        [] \<Rightarrow> None
      | c # cs \<Rightarrow> if c = CHR ''A'' then Some (Atom cs)
                  else if c = CHR ''L'' then Some (PyList cs) else None)"

definition ex_name :: "char \<Rightarrow> string" where
  "ex_name key = [key]"

text \<open>
  No key of these stores is a tuple, the elements of a string are its characters, and a
  set is iterated over in the order its elements were added, or in the reverse order.
\<close>

definition ex_len :: "char \<Rightarrow> nat option" where
  "ex_len key = None"

definition ex_elements :: "string \<Rightarrow> char list option" where
  "ex_elements a = Some a"

definition ex_order :: "char list \<Rightarrow> char list" where
  "ex_order ks = ks"

definition ex_reversed :: "char list \<Rightarrow> char list" where
  "ex_reversed ks = rev ks"

definition ex_chest :: "int \<Rightarrow> (char, string) chest" where
  "ex_chest budget =
     \<lparr> inmem = [], u_keys = [], explicitly_given_path = False, files = Map.empty,
       available_memory = budget, load = ex_load, dump = ex_dump,
       u_key_to_filename = ex_name \<rparr>"

text \<open>A store with one value in memory.\<close>

definition ex_loaded :: "(char, string) chest" where
  "ex_loaded = (ex_chest 10)\<lparr>inmem := [(CHR ''a'', Atom ''hello'')], u_keys := [CHR ''a'']\<rparr>"

text \<open>A store with two values in memory, and the same store after a flush.\<close>

definition ex_two :: "(char, string) chest" where
  "ex_two =
     (ex_chest 10)\<lparr>inmem := [(CHR ''a'', Atom ''hello''), (CHR ''b'', Atom ''bye'')],
                   u_keys := [CHR ''a'', CHR ''b'']\<rparr>"

definition ex_two_flushed :: "(char, string) chest" where
  "ex_two_flushed =
     (ex_chest 10)\<lparr>u_keys := [CHR ''a'', CHR ''b''],
                   files := [''a'' \<mapsto> ''Ahello'', ''b'' \<mapsto> ''Abye'', ''.keys'' \<mapsto> ''Lba'']\<rparr>"

text \<open>A store whose only value is on disk.\<close>

definition ex_stored :: "int \<Rightarrow> (char, string) chest" where
  "ex_stored budget = (ex_chest budget)\<lparr>u_keys := [CHR ''a''], files := [''a'' \<mapsto> ''Aold'']\<rparr>"

text \<open>A store whose serializer raises after two bytes.\<close>

definition ex_broken :: "(char, string) chest" where
  "ex_broken =
     \<lparr> inmem = [(CHR ''a'', Atom ''hello'')], u_keys = [CHR ''a''],
       explicitly_given_path = False, files = Map.empty,
       available_memory = 3, load = ex_load, dump = (\<lambda>v. Broken ''Ah''),
       u_key_to_filename = ex_name \<rparr>"

text \<open>A store whose file names collide: every key is kept in the file \<open>f\<close>.\<close>

definition ex_collide :: "(char, string) chest" where
  "ex_collide =
     \<lparr> inmem = [], u_keys = [CHR ''a''], explicitly_given_path = False,
       files = [''f'' \<mapsto> ''Aold''],
       available_memory = 0, load = ex_load, dump = ex_dump,
       u_key_to_filename = (\<lambda>key. ''f'') \<rparr>"


definition ex_seeded_shared :: "(char, string) chest" where
  "ex_seeded_shared =
     (ex_chest 0)\<lparr>inmem := [(CHR ''b'', Atom ''xy'')], u_key_to_filename := (\<lambda>key. ''f'')\<rparr>"

text \<open>A store seeded with a value and otherwise default.\<close>

definition ex_seeded :: "(char, string) chest" where
  "ex_seeded = (ex_chest DEFAULT_AVAILABLE_MEMORY)\<lparr>inmem := [(CHR ''a'', Atom ''hello'')]\<rparr>"




section \<open>Properties\<close>

subsection \<open>Evaluating the sample stores\<close>

lemmas ex_defs = ex_chest_def ex_nbytes_def ex_dump_def ex_load_def ex_name_def ex_len_def
  ex_elements_def ex_order_def ex_reversed_def

lemmas op_defs = setitem_def getitem_def formats_def delitem_def insert_item_def shrink_def
  memory_usage_def
  move_to_disk_def get_from_disk_def flush_def write_keys_def perform_all_def Let_def

lemma ex_load_dump: "\<exists>bs. ex_dump x = Written bs \<and> ex_load bs = Some x"
  by (cases x) (simp_all add: ex_dump_def ex_load_def)



subsection \<open>What each step leaves unchanged\<close>

lemma move_to_disk_frame:
  "u_keys (snd (move_to_disk key s)) = u_keys s"
  "available_memory (snd (move_to_disk key s)) = available_memory s"
  "dump (snd (move_to_disk key s)) = dump s"
  "load (snd (move_to_disk key s)) = load s"
  "u_key_to_filename (snd (move_to_disk key s)) = u_key_to_filename s"
  by (simp_all add: move_to_disk_def Let_def split: option.splits dumped.splits)

lemma move_to_disk_Inr:
  "move_to_disk key s = (Inr u, s') \<Longrightarrow>
     \<exists>v bs. map_of (inmem s) key = Some v \<and> dump s v = Written bs \<and>
            s' = s\<lparr>files := (files s)(u_key_to_filename s key \<mapsto> bs),
                   inmem := AList.delete key (inmem s)\<rparr>"
  by (auto simp: move_to_disk_def Let_def split: option.splits dumped.splits)

lemma move_to_disk_Inl:
  "move_to_disk key s = (Inl e, s') \<Longrightarrow>
     inmem s' = inmem s \<and>
     (\<exists>bs. s' = s\<lparr>files := (files s)(u_key_to_filename s key \<mapsto> bs)\<rparr>) \<and>
     ((map_of (inmem s) key = None \<and> e = KeyNotFound) \<or>
      (\<exists>v. map_of (inmem s) key = Some v \<and> e = SerializationFailure))"
  by (auto simp: move_to_disk_def Let_def split: option.splits dumped.splits)

subsection \<open>The two loops\<close>

lemma shrink_loop_rule:
  assumes inv: "I stack mem s"
    and step: "\<And>key data rest mem s u s'.
        I ((key, data) # rest) mem s \<Longrightarrow> mem > available_memory s \<Longrightarrow>
        move_to_disk key s = (Inr u, s') \<Longrightarrow> I rest (mem - nb data) s'"
    and fail: "\<And>key data rest mem s e s'.
        I ((key, data) # rest) mem s \<Longrightarrow> mem > available_memory s \<Longrightarrow>
        move_to_disk key s = (Inl e, s') \<Longrightarrow> Q (Inl e) s'"
    and stop: "\<And>stack mem s.
        I stack mem s \<Longrightarrow> stack = [] \<or> \<not> mem > available_memory s \<Longrightarrow> Q (Inr ()) s"
  shows "Q (fst (shrink_loop nb stack mem s)) (snd (shrink_loop nb stack mem s))"
  using inv
proof (induction stack arbitrary: mem s)
  case Nil
  then show ?case using stop by simp
next
  case (Cons kv rest)
  obtain key data where kv: "kv = (key, data)" by (cases kv)
  show ?case
  proof (cases "mem > available_memory s")
    case False
    then show ?thesis using stop [OF Cons.prems] kv by simp
  next
    case True
    obtain r s' where m: "move_to_disk key s = (r, s')" by (cases "move_to_disk key s")
    show ?thesis
    proof (cases r)
      case (Inl e)
      then show ?thesis using fail [of key data rest mem s e s'] Cons.prems True m kv by simp
    next
      case (Inr u)
      have "I rest (mem - nb data) s'"
        using step [of key data rest mem s u s'] Cons.prems True m kv Inr by simp
      from Cons.IH [OF this] show ?thesis using True m kv Inr by simp
    qed
  qed
qed

lemma flush_loop_rule:
  assumes inv: "I ks s"
    and step: "\<And>key rest s u s'. I (key # rest) s \<Longrightarrow> move_to_disk key s = (Inr u, s') \<Longrightarrow> I rest s'"
    and fail: "\<And>key rest s e s'. I (key # rest) s \<Longrightarrow> move_to_disk key s = (Inl e, s') \<Longrightarrow> Q (Inl e) s'"
    and stop: "\<And>s. I [] s \<Longrightarrow> Q (Inr ()) s"
  shows "Q (fst (flush_loop ks s)) (snd (flush_loop ks s))"
  using inv
proof (induction ks arbitrary: s)
  case Nil
  then show ?case using stop by simp
next
  case (Cons key rest)
  obtain r s' where m: "move_to_disk key s = (r, s')" by (cases "move_to_disk key s")
  show ?case
  proof (cases r)
    case (Inl e)
    then show ?thesis using fail [of key rest s e s'] Cons.prems m by simp
  next
    case (Inr u)
    have "I rest s'" using step [of key rest s u s'] Cons.prems m Inr by simp
    from Cons.IH [OF this] show ?thesis using m Inr by simp
  qed
qed

lemma same_config_refl [simp]: "same_config s s"
  by (simp add: same_config_def)

lemma same_config_trans: "same_config s s' \<Longrightarrow> same_config s' s'' \<Longrightarrow> same_config s s''"
  by (simp add: same_config_def)

lemma move_to_disk_same_config: "move_to_disk key s = (r, s') \<Longrightarrow> same_config s s'"
  by (auto simp: same_config_def move_to_disk_def Let_def split: option.splits dumped.splits)



lemma flush_loop_same_config: "same_config s (snd (flush_loop ks s))"
  by (rule flush_loop_rule [where I = "\<lambda>_ s'. same_config s s'" and Q = "\<lambda>_ s'. same_config s s'"])
     (auto intro: same_config_trans move_to_disk_same_config)

lemma victims_ok_step:
  assumes "victims_ok ((key, data) # rest) s" "move_to_disk key s = (Inr u, s')"
  shows "victims_ok rest s'"
proof -
  from assms(2) have s': "inmem s' = AList.delete key (inmem s)"
    using move_to_disk_Inr [of key s u s'] by auto
  have d: "distinct (map fst rest)" and k: "key \<notin> fst ` set rest"
    using assms(1) by (simp_all add: victims_ok_def)
  have "map_of (inmem s') k = Some v" if "(k, v) \<in> set rest" for k v
  proof -
    from that k have "k \<noteq> key" by force
    moreover from that assms(1) have "map_of (inmem s) k = Some v"
      by (auto simp: victims_ok_def)
    ultimately show ?thesis by (simp add: s')
  qed
  with d show ?thesis by (auto simp: victims_ok_def)
qed

lemma victims_ok_sorted:
  assumes "distinct (map fst (inmem s))"
  shows "victims_ok (rev (sort_key f (inmem s))) s"
proof -
  have "distinct (map fst (sort_key f (inmem s)))"
    using assms by (simp add: distinct_map)
  then have "distinct (map fst (rev (sort_key f (inmem s))))"
    by (simp add: rev_map [symmetric])
  moreover have "\<forall>(k, v) \<in> set (rev (sort_key f (inmem s))). map_of (inmem s) k = Some v"
    using assms by auto
  ultimately show ?thesis unfolding victims_ok_def by blast
qed

lemma shrink_loop_error:
  assumes "victims_ok stack s"
  shows "fst (shrink_loop nb stack mem s) \<in> {Inr (), Inl SerializationFailure}"
proof (rule shrink_loop_rule [where I = "\<lambda>st _ s'. victims_ok st s'"
      and Q = "\<lambda>r _. r \<in> {Inr (), Inl SerializationFailure}"])
  show "victims_ok stack s" by (rule assms)
next
  fix key data rest mem s u s'
  assume "victims_ok ((key, data) # rest) s" "move_to_disk key s = (Inr u, (s' :: ('a, 'b) chest))"
  then show "victims_ok rest s'" by (rule victims_ok_step)
next
  fix key data rest and mem :: int and s :: "('a, 'b) chest" and e s'
  assume "victims_ok ((key, data) # rest) s" "move_to_disk key s = (Inl e, s')"
  then show "Inl e \<in> {Inr (), Inl SerializationFailure}"
    using move_to_disk_Inl [of key s e s'] by (auto simp: victims_ok_def)
qed simp

lemma shrink_error:
  assumes "distinct (map fst (inmem s))"
  shows "fst (shrink nb s) \<in> {Inr (), Inl SerializationFailure}"
  using shrink_loop_error [OF victims_ok_sorted [OF assms, of "\<lambda>kv. nb (snd kv)"], of nb "memory_usage nb s"]
  by (simp add: shrink_def Let_def)

lemma get_from_disk_Inr:
  "get_from_disk key s = (Inr u, s') \<Longrightarrow>
     map_of (inmem s') key \<noteq> None \<and>
     (distinct (map fst (inmem s)) \<longrightarrow> distinct (map fst (inmem s')))"
  by (auto simp: get_from_disk_def AList.update_conv' AList.distinct_update
      split: if_splits option.splits)

lemma get_from_disk_Inl:
  "get_from_disk key s = (Inl e, s') \<Longrightarrow> s' = s \<and> e \<noteq> KeyNotFound"
  by (auto simp: get_from_disk_def split: if_splits option.splits)

lemma getitem_KeyNotFound:
  assumes "distinct (map fst (inmem s))"
  shows "(fst (getitem tlen nb key s) = Inl KeyNotFound) =
         (key \<notin> set (u_keys s) \<and> map_of (inmem s) key = None \<and> formats tlen key)"
proof (cases "map_of (inmem s) key")
  case (Some v)
  then show ?thesis by (simp add: getitem_def)
next
  case None
  show ?thesis
  proof (cases "key \<in> set (u_keys s)")
    case False
    then show ?thesis using None by (simp add: getitem_def)
  next
    case True
    obtain r s1 where g: "get_from_disk key s = (r, s1)" by (cases "get_from_disk key s")
    show ?thesis
    proof (cases r)
      case (Inl e)
      then show ?thesis using None True g get_from_disk_Inl [of key s e s1]
        by (simp add: getitem_def)
    next
      case (Inr u)
      from get_from_disk_Inr [of key s u s1] g Inr assms
      obtain v where v: "map_of (inmem s1) key = Some v" and d: "distinct (map fst (inmem s1))"
        by auto
      obtain r2 s2 where sh: "shrink nb s1 = (r2, s2)" by (cases "shrink nb s1")
      have "r2 \<in> {Inr (), Inl SerializationFailure}"
        using shrink_error [OF d, of nb] sh by simp
      then show ?thesis using None True g Inr v sh
        by (auto simp: getitem_def)
    qed
  qed
qed

lemma delitem_KeyNotFound:
  "(fst (delitem key s) = Inl KeyNotFound) = (key \<notin> set (u_keys s))"
  by (simp add: delitem_def Let_def)

subsection \<open>A failed write to disk\<close>

text \<open>
  C9. When moving a key to disk fails (the serializer or the stream raises, or the key has
  no value in memory), the in-memory mapping and the key set are as they were before the
  call: the entry is deleted only after the dump has returned.
\<close>

theorem move_to_disk_failure_keeps_memory:
  "fst (move_to_disk key s) = Inl e \<Longrightarrow>
     inmem (snd (move_to_disk key s)) = inmem s \<and>
     u_keys (snd (move_to_disk key s)) = u_keys s"
  by (auto simp: move_to_disk_def Let_def split: option.splits dumped.splits)

theorem move_to_disk_failure_keeps_memory_witness:
  "fst (move_to_disk (CHR ''a'') ex_broken) = Inl SerializationFailure \<and>
   inmem (snd (move_to_disk (CHR ''a'') ex_broken)) = [(CHR ''a'', Atom ''hello'')] \<and>
   files (snd (move_to_disk (CHR ''a'') ex_broken)) ''a'' = Some ''Ah''"
proof -
  have h: "fst (move_to_disk (CHR ''a'') ex_broken) = Inl SerializationFailure"
    by (simp add: move_to_disk_def ex_broken_def ex_name_def)
  have "inmem (snd (move_to_disk (CHR ''a'') ex_broken)) = inmem ex_broken"
    using move_to_disk_failure_keeps_memory [OF h] by simp
  moreover have "files (snd (move_to_disk (CHR ''a'') ex_broken)) ''a'' = Some ''Ah''"
    by (simp add: move_to_disk_def ex_broken_def ex_name_def)
  ultimately show ?thesis using h by (simp add: ex_broken_def)
qed

subsection \<open>Deleting a key that is not tracked\<close>

text \<open>
  C10. Deleting a key that is not in the key set raises KeyNotFound and leaves the key
  set as it was, but not the rest of the state: the file at the key's path, if there is
  one, has been removed by then (and so has an in-memory entry under the key).
\<close>

theorem delitem_absent_removes_file:
  "key \<notin> set (u_keys s) \<Longrightarrow>
     fst (delitem key s) = Inl KeyNotFound \<and>
     u_keys (snd (delitem key s)) = u_keys s \<and>
     files (snd (delitem key s)) = (files s)(u_key_to_filename s key := None) \<and>
     inmem (snd (delitem key s)) = AList.delete key (inmem s)"
  by (auto simp: delitem_def Let_def fun_upd_idem map_of_eq_None_iff)

theorem delitem_absent_removes_file_witness:
  "CHR ''b'' \<notin> set (u_keys ex_collide) \<and>
   files ex_collide ''f'' = Some ''Aold'' \<and>
   fst (delitem (CHR ''b'') ex_collide) = Inl KeyNotFound \<and>
   u_keys (snd (delitem (CHR ''b'') ex_collide)) = [CHR ''a''] \<and>
   files (snd (delitem (CHR ''b'') ex_collide)) ''f'' = None"
proof -
  have h: "CHR ''b'' \<notin> set (u_keys ex_collide)"
    by (simp add: ex_collide_def)
  show ?thesis
    using h delitem_absent_removes_file [OF h] by (simp add: ex_collide_def)
qed

subsection \<open>Missing keys\<close>

text \<open>
  What holds of the two calls. Deleting a key raises KeyNotFound exactly when the key is
  not in the key set. Reading a key raises KeyNotFound exactly when the key is neither in
  memory nor in the key set and the message of the error can be formatted; when it
  cannot, the read raises TypeFailure instead.
\<close>

lemma getitem_missing:
  "map_of (inmem s) key = None \<Longrightarrow> key \<notin> set (u_keys s) \<Longrightarrow>
     getitem tlen nb key s = (Inl (if formats tlen key then KeyNotFound else TypeFailure), s)"
  by (simp add: getitem_def)

lemma key_not_found_unless_tuple:
  "distinct (map fst (inmem s)) \<Longrightarrow>
     ((fst (getitem tlen nb key s) = Inl KeyNotFound) =
        (key \<notin> set (u_keys s) \<and> map_of (inmem s) key = None \<and> formats tlen key)) \<and>
     ((fst (delitem key s) = Inl KeyNotFound) = (key \<notin> set (u_keys s)))"
  by (simp add: getitem_KeyNotFound delitem_KeyNotFound)

lemma formats_pykey:
  "formats pykey_len key = (\<forall>ks. key = PyTuple ks \<longrightarrow> length ks = 1)"
  by (cases key) (simp_all add: formats_def)

text \<open>
  C5, at the input where the code departs from it: in a store constructed with no data
  and no path, with the default file names, the key \<open>('tuple', 'key')\<close> is not in the key
  set, and reading it raises TypeFailure, not KeyNotFound: the message of the KeyError is
  built with \<^verbatim>\<open>%\<close>, which takes the two elements of the tuple as two arguments for one
  \<^verbatim>\<open>%s\<close>. Deleting the same key does raise KeyNotFound.
\<close>

theorem missing_tuple_key_raises_type_error:
  "(case chest_init elements None None avail dmp ld (key_to_filename hash) of
      Inl e \<Rightarrow> False
    | Inr s0 \<Rightarrow>
        PyTuple [PyStr ''tuple'', PyStr ''key''] \<notin> set (u_keys s0) \<and>
        getitem pykey_len nbytes (PyTuple [PyStr ''tuple'', PyStr ''key'']) s0
          = (Inl TypeFailure, s0) \<and>
        fst (delitem (PyTuple [PyStr ''tuple'', PyStr ''key'']) s0) = Inl KeyNotFound)"
  by (simp add: chest_init_def getitem_def formats_def delitem_def Let_def)

subsection \<open>Overwriting a key\<close>

lemma victims_ok_head:
  "victims_ok ((key, data) # rest) s \<Longrightarrow> map_of (inmem s) key = Some data"
  by (simp add: victims_ok_def)

lemma shrink_loop_files:
  assumes "victims_ok stack s"
  shows "files (snd (shrink_loop nb stack mem s)) fn = files s fn \<or>
         (\<exists>(k, v) \<in> set stack. u_key_to_filename s k = fn \<and>
            (\<exists>bs. (dump s v = Written bs \<or> dump s v = Broken bs) \<and>
                  files (snd (shrink_loop nb stack mem s)) fn = Some bs))"
    (is "?R (snd (shrink_loop nb stack mem s))")
proof (rule shrink_loop_rule [where
      I = "\<lambda>st _ s'. victims_ok st s' \<and> set st \<subseteq> set stack \<and> same_config s s' \<and> ?R s'"
      and Q = "\<lambda>_ s'. ?R s'"])
  show "victims_ok stack s \<and> set stack \<subseteq> set stack \<and> same_config s s \<and> ?R s"
    using assms by simp
next
  fix key data rest and mem :: int and s1 :: "('a, 'b) chest" and u s2
  assume I: "victims_ok ((key, data) # rest) s1 \<and> set ((key, data) # rest) \<subseteq> set stack \<and>
      same_config s s1 \<and> ?R s1"
    and m: "move_to_disk key s1 = (Inr u, s2)"
  from I have vo: "victims_ok ((key, data) # rest) s1"
    and sub: "set ((key, data) # rest) \<subseteq> set stack"
    and sc: "same_config s s1" and R: "?R s1" by blast+
  from vo have d: "map_of (inmem s1) key = Some data" by (rule victims_ok_head)
  from move_to_disk_Inr [OF m] d obtain bs where
    bs: "dump s1 data = Written bs"
    and s2: "s2 = s1\<lparr>files := (files s1)(u_key_to_filename s1 key \<mapsto> bs),
                    inmem := AList.delete key (inmem s1)\<rparr>"
    by auto
  have cfg: "dump s1 = dump s" "u_key_to_filename s1 = u_key_to_filename s"
    using sc by (simp_all add: same_config_def)
  have "?R s2"
  proof (cases "u_key_to_filename s key = fn")
    case True
    have "(key, data) \<in> set stack" using sub by simp
    moreover have "files s2 fn = Some bs" using True s2 cfg by simp
    ultimately show ?thesis using True bs cfg by fastforce
  next
    case False
    then have "files s2 fn = files s1 fn" using s2 cfg by simp
    then show ?thesis using R by simp
  qed
  moreover have "victims_ok rest s2" using vo m by (rule victims_ok_step)
  moreover have "same_config s s2"
    using sc move_to_disk_same_config [OF m] by (rule same_config_trans)
  moreover have "set rest \<subseteq> set stack" using sub by simp
  ultimately show "victims_ok rest s2 \<and> set rest \<subseteq> set stack \<and> same_config s s2 \<and> ?R s2"
    by blast
next
  fix key data rest and mem :: int and s1 :: "('a, 'b) chest" and e s2
  assume I: "victims_ok ((key, data) # rest) s1 \<and> set ((key, data) # rest) \<subseteq> set stack \<and>
      same_config s s1 \<and> ?R s1"
    and m: "move_to_disk key s1 = (Inl e, s2)"
  from I have vo: "victims_ok ((key, data) # rest) s1"
    and sub: "set ((key, data) # rest) \<subseteq> set stack"
    and sc: "same_config s s1" and R: "?R s1" by blast+
  from vo have d: "map_of (inmem s1) key = Some data" by (rule victims_ok_head)
  have cfg: "dump s1 = dump s" "u_key_to_filename s1 = u_key_to_filename s"
    using sc by (simp_all add: same_config_def)
  from m d obtain bs where bs: "dump s1 data = Broken bs"
    and s2: "s2 = s1\<lparr>files := (files s1)(u_key_to_filename s1 key \<mapsto> bs)\<rparr>"
    by (auto simp: move_to_disk_def Let_def split: dumped.splits)
  show "?R s2"
  proof (cases "u_key_to_filename s key = fn")
    case True
    have "(key, data) \<in> set stack" using sub by simp
    moreover have "files s2 fn = Some bs" using True s2 cfg by simp
    ultimately show ?thesis using True bs cfg by fastforce
  next
    case False
    then have "files s2 fn = files s1 fn" using s2 cfg by simp
    then show ?thesis using R by simp
  qed
qed simp

lemma shrink_files:
  assumes "distinct (map fst (inmem s))"
  shows "files (snd (shrink nb s)) fn = files s fn \<or>
         (\<exists>k v bs. map_of (inmem s) k = Some v \<and> u_key_to_filename s k = fn \<and>
            (dump s v = Written bs \<or> dump s v = Broken bs) \<and>
            files (snd (shrink nb s)) fn = Some bs)"
proof (cases "memory_usage nb s < available_memory s")
  case True
  then show ?thesis by (simp add: shrink_def)
next
  case False
  let ?st = "rev (sort_key (\<lambda>kv. nb (snd kv)) (inmem s))"
  have eq: "shrink nb s = shrink_loop nb ?st (memory_usage nb s) s"
    using False by (simp add: shrink_def Let_def)
  have "\<And>k v. (k, v) \<in> set ?st \<Longrightarrow> map_of (inmem s) k = Some v"
    using assms by simp
  with shrink_loop_files [OF victims_ok_sorted [OF assms, of "\<lambda>kv. nb (snd kv)"],
      of nb "memory_usage nb s" fn]
  show ?thesis unfolding eq by blast
qed

lemma delitem_present:
  assumes "key \<in> set (u_keys s)"
  shows "delitem key s =
     (Inr (), s\<lparr>inmem := AList.delete key (inmem s),
               files := (files s)(u_key_to_filename s key := None),
               u_keys := removeAll key (u_keys s)\<rparr>)"
  using assms by (auto simp: delitem_def Let_def fun_upd_idem map_of_eq_None_iff)

text \<open>
  C6. Writing to a key that is in the key set first runs the whole of the deletion, which
  succeeds: afterwards the key has no in-memory entry, no file and is not in the key set;
  only then is the new value inserted and the store shrunk. When the write is over, the
  file of the key is either absent or holds bytes that this very call dumped from a value
  then in memory (the new value, unless another key shares the file name): nothing of
  the prior entry is left under the key.
\<close>

theorem setitem_overwrite_removes_prior:
  assumes "key \<in> set (u_keys s)"
  shows "\<exists>s1. delitem key s = (Inr (), s1) \<and>
           \<not> in_memory s1 key \<and> \<not> has_file s1 key \<and> key \<notin> set (u_keys s1) \<and>
           setitem nb key v s = shrink nb (insert_item key v s1) \<and>
           (distinct (map fst (inmem s)) \<longrightarrow>
              files (snd (setitem nb key v s)) (u_key_to_filename s key) = None \<or>
              (\<exists>k' v' bs. map_of (inmem (insert_item key v s1)) k' = Some v' \<and>
                 u_key_to_filename s k' = u_key_to_filename s key \<and>
                 (dump s v' = Written bs \<or> dump s v' = Broken bs) \<and>
                 files (snd (setitem nb key v s)) (u_key_to_filename s key) = Some bs))"
proof -
  let ?s1 = "s\<lparr>inmem := AList.delete key (inmem s),
               files := (files s)(u_key_to_filename s key := None),
               u_keys := removeAll key (u_keys s)\<rparr>"
  let ?s2 = "insert_item key v ?s1"
  have del: "delitem key s = (Inr (), ?s1)" by (rule delitem_present [OF assms])
  have a: "\<not> in_memory ?s1 key" by (simp add: in_memory_def AList.delete_conv')
  have b: "\<not> has_file ?s1 key" by (simp add: has_file_def)
  have c: "key \<notin> set (u_keys ?s1)" by simp
  have set: "setitem nb key v s = shrink nb ?s2"
    using assms del by (simp add: setitem_def)
  have files: "files (snd (shrink nb ?s2)) (u_key_to_filename s key) = None \<or>
      (\<exists>k' v' bs. map_of (inmem ?s2) k' = Some v' \<and>
         u_key_to_filename s k' = u_key_to_filename s key \<and>
         (dump s v' = Written bs \<or> dump s v' = Broken bs) \<and>
         files (snd (shrink nb ?s2)) (u_key_to_filename s key) = Some bs)"
    if d: "distinct (map fst (inmem s))"
  proof -
    have d2: "distinct (map fst (inmem ?s2))"
      using d by (simp add: insert_item_def AList.distinct_update AList.distinct_delete)
    have cfg: "u_key_to_filename ?s2 = u_key_to_filename s" "dump ?s2 = dump s"
      "files ?s2 (u_key_to_filename s key) = None"
      by (simp_all add: insert_item_def)
    from shrink_files [OF d2, of nb "u_key_to_filename s key"] show ?thesis
      unfolding cfg by blast
  qed
  show ?thesis using del a b c set files by (intro exI [of _ ?s1]) (simp only: set, blast)
qed

theorem setitem_overwrite_removes_prior_witness:
  "CHR ''a'' \<in> set (u_keys (ex_stored 10)) \<and> files (ex_stored 10) ''a'' = Some ''Aold'' \<and>
   files (snd (setitem ex_nbytes (CHR ''a'') (Atom ''new'') (ex_stored 10))) ''a'' = None \<and>
   files (snd (setitem ex_nbytes (CHR ''a'') (Atom ''new'') (ex_stored 0))) ''a'' = Some ''Anew''"
proof -
  have h: "CHR ''a'' \<in> set (u_keys (ex_stored b))" for b
    by (simp add: ex_stored_def)
  have e1: "files (snd (setitem ex_nbytes (CHR ''a'') (Atom ''new'') (ex_stored 10))) ''a'' = None"
    by (simp add: setitem_def delitem_def insert_item_def shrink_def memory_usage_def
        ex_stored_def ex_chest_def ex_nbytes_def ex_name_def Let_def)
  have e2: "files (snd (setitem ex_nbytes (CHR ''a'') (Atom ''new'') (ex_stored 0))) ''a'' = Some ''Anew''"
    by (simp add: setitem_def delitem_def insert_item_def shrink_def memory_usage_def
        move_to_disk_def ex_stored_def ex_chest_def ex_nbytes_def ex_name_def ex_dump_def Let_def)
  show ?thesis
    using h [of 10] setitem_overwrite_removes_prior [OF h [of 10], of ex_nbytes "Atom ''new''"] e1 e2
    by (simp add: ex_stored_def ex_chest_def)
qed

subsection \<open>Flushing\<close>

lemma flush_loop_empties:
  assumes "fst ` set (inmem s) \<subseteq> set ks" "fst (flush_loop ks s) = Inr u"
  shows "inmem (snd (flush_loop ks s)) = []"
proof -
  have "fst (flush_loop ks s) = Inr () \<longrightarrow> inmem (snd (flush_loop ks s)) = []"
  proof (rule flush_loop_rule [where I = "\<lambda>ks s'. fst ` set (inmem s') \<subseteq> set ks"
        and Q = "\<lambda>r s'. r = Inr () \<longrightarrow> inmem s' = []"])
    show "fst ` set (inmem s) \<subseteq> set ks" by (rule assms)
  next
    fix key rest and s1 :: "('a, 'b) chest" and u s2
    assume I: "fst ` set (inmem s1) \<subseteq> set (key # rest)" and m: "move_to_disk key s1 = (Inr u, s2)"
    from move_to_disk_Inr [OF m] have s2: "inmem s2 = AList.delete key (inmem s1)" by auto
    show "fst ` set (inmem s2) \<subseteq> set rest"
      using I AList.delete_notin_dom [of key "inmem s1"] AList.dom_delete_subset [of key "inmem s1"]
      unfolding s2 by (auto simp: image_subset_iff) force
  qed simp_all
  with assms(2) show ?thesis by simp
qed

lemma flush_loop_has_file:
  assumes "in_memory s k" "k \<in> set ks \<or> has_file s k" "fst (flush_loop ks s) = Inr u"
  shows "has_file (snd (flush_loop ks s)) k"
proof -
  have "fst (flush_loop ks s) = Inr () \<longrightarrow> has_file (snd (flush_loop ks s)) k"
  proof (rule flush_loop_rule [where I = "\<lambda>ks s'. same_config s s' \<and> (k \<in> set ks \<or> has_file s' k)"
        and Q = "\<lambda>r s'. r = Inr () \<longrightarrow> has_file s' k"])
    show "same_config s s \<and> (k \<in> set ks \<or> has_file s k)" using assms by simp
  next
    fix key rest and s1 :: "('a, 'b) chest" and u s2
    assume I: "same_config s s1 \<and> (k \<in> set (key # rest) \<or> has_file s1 k)"
      and m: "move_to_disk key s1 = (Inr u, s2)"
    from move_to_disk_Inr [OF m] obtain bs where
      s2: "files s2 = (files s1)(u_key_to_filename s1 key \<mapsto> bs)"
        "u_key_to_filename s2 = u_key_to_filename s1" by auto
    have "same_config s s2" using I move_to_disk_same_config [OF m] same_config_trans by blast
    moreover have "k \<in> set rest \<or> has_file s2 k"
      using I s2 by (auto simp: has_file_def)
    ultimately show "same_config s s2 \<and> (k \<in> set rest \<or> has_file s2 k)" by simp
  qed simp_all
  with assms(3) show ?thesis by simp
qed

lemma flush_loop_content:
  assumes d: "distinct ks"
    and inj: "inj_on (u_key_to_filename s) (fst ` set (inmem s))"
    and sub: "set ks \<subseteq> fst ` set (inmem s)"
    and kv: "map_of (inmem s) k = Some v"
    and ok: "fst (flush_loop ks s) = Inr u"
  shows "if k \<in> set ks
         then \<exists>bs. dump s v = Written bs \<and> files (snd (flush_loop ks s)) (u_key_to_filename s k) = Some bs
         else files (snd (flush_loop ks s)) (u_key_to_filename s k) = files s (u_key_to_filename s k)"
proof -
  let ?fn = "u_key_to_filename s k"
  let ?P = "\<lambda>st s'. same_config s s' \<and> distinct st \<and> set st \<subseteq> fst ` set (inmem s) \<and>
       set st \<subseteq> set ks \<and>
       (if k \<in> set st then map_of (inmem s') k = Some v \<and> files s' ?fn = files s ?fn
        else (k \<in> set ks \<longrightarrow> (\<exists>bs. dump s v = Written bs \<and> files s' ?fn = Some bs)) \<and>
             (k \<notin> set ks \<longrightarrow> files s' ?fn = files s ?fn))"
  have kdom: "k \<in> fst ` set (inmem s)" using map_of_SomeD [OF kv] by force
  have "fst (flush_loop ks s) = Inr () \<longrightarrow>
        (k \<in> set ks \<longrightarrow> (\<exists>bs. dump s v = Written bs \<and> files (snd (flush_loop ks s)) ?fn = Some bs)) \<and>
        (k \<notin> set ks \<longrightarrow> files (snd (flush_loop ks s)) ?fn = files s ?fn)"
  proof (rule flush_loop_rule [where I = "?P"
        and Q = "\<lambda>r s'. r = Inr () \<longrightarrow>
            (k \<in> set ks \<longrightarrow> (\<exists>bs. dump s v = Written bs \<and> files s' ?fn = Some bs)) \<and>
            (k \<notin> set ks \<longrightarrow> files s' ?fn = files s ?fn)"])
    show "?P ks s" using d sub kv by simp
  next
    fix key rest and s1 :: "('a, 'b) chest" and u s2
    assume I: "?P (key # rest) s1" and m: "move_to_disk key s1 = (Inr u, s2)"
    from I have sc: "same_config s s1" and dr: "distinct (key # rest)"
      and sb: "set (key # rest) \<subseteq> fst ` set (inmem s)"
      and sk: "set (key # rest) \<subseteq> set ks" by blast+
    have cfg: "dump s1 = dump s" "u_key_to_filename s1 = u_key_to_filename s"
      using sc by (simp_all add: same_config_def)
    from move_to_disk_Inr [OF m] obtain v' bs where
      v': "map_of (inmem s1) key = Some v'" and bs: "dump s v' = Written bs"
      and fs2: "files s2 = (files s1)(u_key_to_filename s key \<mapsto> bs)"
      and im2: "inmem s2 = AList.delete key (inmem s1)"
      unfolding cfg by auto
    have sc2: "same_config s s2"
      using sc move_to_disk_same_config [OF m] by (rule same_config_trans)
    have body: "if k \<in> set rest then map_of (inmem s2) k = Some v \<and> files s2 ?fn = files s ?fn
        else (k \<in> set ks \<longrightarrow> (\<exists>bs. dump s v = Written bs \<and> files s2 ?fn = Some bs)) \<and>
             (k \<notin> set ks \<longrightarrow> files s2 ?fn = files s ?fn)"
    proof (cases "k = key")
      case True
      with I have "map_of (inmem s1) k = Some v" by simp
      with v' True have "v' = v" by simp
      moreover have "k \<notin> set rest" using dr True by simp
      moreover have "k \<in> set ks" using sk True by simp
      ultimately show ?thesis using True bs fs2 I by auto
    next
      case False
      have "key \<in> fst ` set (inmem s)" using sb by simp
      with kdom False inj have ne: "u_key_to_filename s key \<noteq> ?fn"
        by (auto simp: inj_on_def)
      have f: "files s2 ?fn = files s1 ?fn" using ne fs2 by simp
      have mm: "map_of (inmem s2) k = map_of (inmem s1) k" using False im2 by simp
      show ?thesis using I False f mm by auto
    qed
    show "?P rest s2" using sc2 dr sb sk body by simp
  qed auto
  with ok show ?thesis by auto
qed


lemma flush_Inr:
  assumes "flush ord s = (Inr u, s')"
  obtains s1 bs where "flush_loop (map fst (inmem s)) s = (Inr (), s1)"
    and "dump s (PyList (ord (u_keys s))) = Written bs"
    and "s' = s1\<lparr>files := (files s1)(''.keys'' \<mapsto> bs)\<rparr>"
    and "same_config s s1"
proof -
  obtain r s1 where l: "flush_loop (map fst (inmem s)) s = (r, s1)"
    by (cases "flush_loop (map fst (inmem s)) s")
  have sc: "same_config s s1" using flush_loop_same_config [of s "map fst (inmem s)"] l by simp
  then have cfg: "dump s1 = dump s" "u_keys s1 = u_keys s" by (simp_all add: same_config_def)
  from assms l have r: "r = Inr ()" and w: "write_keys ord s1 = (Inr u, s')"
    by (auto simp: flush_def split: sum.splits)
  from w obtain bs where "dump s (PyList (ord (u_keys s))) = Written bs"
    "s' = s1\<lparr>files := (files s1)(''.keys'' \<mapsto> bs)\<rparr>"
    unfolding cfg [symmetric] by (auto simp: write_keys_def split: dumped.splits)
  with l r sc show ?thesis using that by blast
qed

text \<open>When the loop of \<open>flush\<close> returns, and that it does.\<close>

lemma flush_loop_returns:
  assumes "distinct ks"
    and "\<forall>k \<in> set ks. \<exists>v bs. map_of (inmem s) k = Some v \<and> dump s v = Written bs"
  shows "fst (flush_loop ks s) = Inr ()"
proof (rule flush_loop_rule [where
      I = "\<lambda>st s1. dump s1 = dump s \<and> distinct st \<and>
             (\<forall>k \<in> set st. \<exists>v bs. map_of (inmem s1) k = Some v \<and> dump s v = Written bs)"
      and Q = "\<lambda>r _. r = Inr ()"])
  show "dump s = dump s \<and> distinct ks \<and>
      (\<forall>k \<in> set ks. \<exists>v bs. map_of (inmem s) k = Some v \<and> dump s v = Written bs)"
    using assms by simp
next
  fix key rest and s1 :: "('a, 'b) chest" and u s2
  assume I: "dump s1 = dump s \<and> distinct (key # rest) \<and>
      (\<forall>k \<in> set (key # rest). \<exists>v bs. map_of (inmem s1) k = Some v \<and> dump s v = Written bs)"
    and m: "move_to_disk key s1 = (Inr u, s2)"
  from move_to_disk_Inr [OF m] have im2: "inmem s2 = AList.delete key (inmem s1)"
    and d2: "dump s2 = dump s1" by auto
  have "\<exists>v bs. map_of (inmem s2) k = Some v \<and> dump s v = Written bs" if "k \<in> set rest" for k
  proof -
    from that I have "k \<noteq> key" by auto
    then show ?thesis using that I im2 by simp
  qed
  then show "dump s2 = dump s \<and> distinct rest \<and>
      (\<forall>k \<in> set rest. \<exists>v bs. map_of (inmem s2) k = Some v \<and> dump s v = Written bs)"
    using I d2 by simp
next
  fix key rest and s1 :: "('a, 'b) chest" and e s2
  assume I: "dump s1 = dump s \<and> distinct (key # rest) \<and>
      (\<forall>k \<in> set (key # rest). \<exists>v bs. map_of (inmem s1) k = Some v \<and> dump s v = Written bs)"
    and m: "move_to_disk key s1 = (Inl e, s2)"
  from I obtain v bs where "map_of (inmem s1) key = Some v" "dump s1 v = Written bs" by auto
  then have "fst (move_to_disk key s1) = Inr ()" by (simp add: move_to_disk_def)
  with m show "Inl e = Inr ()" by simp
qed simp

lemma flush_loop_dumped:
  assumes "distinct ks" and "map_of (inmem s) k = Some v" and "k \<in> set ks"
    and "fst (flush_loop ks s) = Inr u"
  shows "\<exists>bs. dump s v = Written bs"
proof -
  have "fst (flush_loop ks s) = Inr () \<longrightarrow> (\<exists>bs. dump s v = Written bs)"
  proof (rule flush_loop_rule [where
        I = "\<lambda>st s1. dump s1 = dump s \<and> distinct st \<and>
               (k \<in> set st \<and> map_of (inmem s1) k = Some v \<or> (\<exists>bs. dump s v = Written bs))"
        and Q = "\<lambda>r _. r = Inr () \<longrightarrow> (\<exists>bs. dump s v = Written bs)"])
    show "dump s = dump s \<and> distinct ks \<and>
        (k \<in> set ks \<and> map_of (inmem s) k = Some v \<or> (\<exists>bs. dump s v = Written bs))"
      using assms by simp
  next
    fix key rest and s1 :: "('a, 'b) chest" and u s2
    assume I: "dump s1 = dump s \<and> distinct (key # rest) \<and>
        (k \<in> set (key # rest) \<and> map_of (inmem s1) k = Some v \<or> (\<exists>bs. dump s v = Written bs))"
      and m: "move_to_disk key s1 = (Inr u, s2)"
    from move_to_disk_Inr [OF m] obtain v' bs where
      v': "map_of (inmem s1) key = Some v'" "dump s1 v' = Written bs"
      and im2: "inmem s2 = AList.delete key (inmem s1)" and d2: "dump s2 = dump s1" by auto
    have "k \<in> set rest \<and> map_of (inmem s2) k = Some v \<or> (\<exists>bs. dump s v = Written bs)"
    proof (cases "k = key")
      case True
      then show ?thesis using I v' by auto
    next
      case False
      then show ?thesis using I im2 by auto
    qed
    then show "dump s2 = dump s \<and> distinct rest \<and>
        (k \<in> set rest \<and> map_of (inmem s2) k = Some v \<or> (\<exists>bs. dump s v = Written bs))"
      using I d2 by simp
  qed auto
  with assms(4) show ?thesis by simp
qed

lemma flush_returns_iff:
  assumes d: "distinct (map fst (inmem s))"
  shows "(fst (flush ord s) = Inr ()) =
         ((\<forall>v \<in> snd ` set (inmem s). \<exists>bs. dump s v = Written bs) \<and>
          (\<exists>bs. dump s (PyList (ord (u_keys s))) = Written bs))"
    (is "?L = (?V \<and> ?M)")
proof
  assume L: ?L
  then obtain s' where f: "flush ord s = (Inr (), s')" by (cases "flush ord s") simp
  from f obtain s1 bs where l: "flush_loop (map fst (inmem s)) s = (Inr (), s1)"
    and bs: "dump s (PyList (ord (u_keys s))) = Written bs"
    by (rule flush_Inr)
  have "\<exists>bs. dump s v = Written bs" if "v \<in> snd ` set (inmem s)" for v
  proof -
    from that obtain k where kv: "(k, v) \<in> set (inmem s)" by auto
    then have "map_of (inmem s) k = Some v" using d by simp
    moreover have "k \<in> set (map fst (inmem s))" using kv by force
    ultimately show ?thesis using flush_loop_dumped [OF d, of s k v] l by simp
  qed
  with bs show "?V \<and> ?M" by blast
next
  assume R: "?V \<and> ?M"
  have "\<exists>v bs. map_of (inmem s) k = Some v \<and> dump s v = Written bs"
    if "k \<in> set (map fst (inmem s))" for k
  proof -
    from that obtain v where kv: "(k, v) \<in> set (inmem s)" by auto
    then have "map_of (inmem s) k = Some v" using d by simp
    moreover have "v \<in> snd ` set (inmem s)" using kv by force
    ultimately show ?thesis using R by blast
  qed
  then have "fst (flush_loop (map fst (inmem s)) s) = Inr ()"
    using flush_loop_returns [OF d] by blast
  then obtain s1 where l: "flush_loop (map fst (inmem s)) s = (Inr (), s1)"
    by (cases "flush_loop (map fst (inmem s)) s") simp
  have "same_config s s1" using flush_loop_same_config [of s "map fst (inmem s)"] l by simp
  then have cfg: "dump s1 = dump s" "u_keys s1 = u_keys s" by (simp_all add: same_config_def)
  from R obtain bs where "dump s (PyList (ord (u_keys s))) = Written bs" by blast
  then have "fst (write_keys ord s1) = Inr ()" using cfg by (simp add: write_keys_def)
  then show ?L using l by (simp add: flush_def)
qed

text \<open>
  C7. In a store whose in-memory mapping is a dictionary, \<open>flush\<close> returns exactly when
  the serializer accepts every value in memory and the list of the keys, whatever the
  budget and however many keys there are. And whenever \<open>flush\<close> returns: the in-memory
  mapping is empty, the key set is unchanged, the manifest file holds the dump of the list
  of keys, and every key that was in memory has a file; if no two in-memory keys share a
  file name and none is named like the manifest, each of these files holds the dump of
  the key's value. A second flush returns too and leaves the state, so the files and the
  manifest, exactly as the first one left them.
\<close>

theorem flush_moves_all_and_is_idempotent:
  "(distinct (map fst (inmem s)) \<longrightarrow>
      (fst (flush ord s) = Inr ()) =
        ((\<forall>v \<in> snd ` set (inmem s). \<exists>bs. dump s v = Written bs) \<and>
         (\<exists>bs. dump s (PyList (ord (u_keys s))) = Written bs))) \<and>
   (flush ord s = (Inr u, s') \<longrightarrow>
      inmem s' = [] \<and> u_keys s' = u_keys s \<and>
      (\<exists>bs. dump s (PyList (ord (u_keys s))) = Written bs \<and> files s' ''.keys'' = Some bs) \<and>
      (\<forall>k. in_memory s k \<longrightarrow> has_file s' k) \<and>
      (distinct (map fst (inmem s)) \<and> inj_on (u_key_to_filename s) (fst ` set (inmem s)) \<and>
       (\<forall>k. in_memory s k \<longrightarrow> u_key_to_filename s k \<noteq> ''.keys'') \<longrightarrow>
         (\<forall>k v. map_of (inmem s) k = Some v \<longrightarrow>
            (\<exists>bs. dump s v = Written bs \<and> files s' (u_key_to_filename s k) = Some bs))) \<and>
      flush ord s' = (Inr (), s'))"
proof (rule conjI; rule impI)
  assume "distinct (map fst (inmem s))"
  then show "(fst (flush ord s) = Inr ()) =
        ((\<forall>v \<in> snd ` set (inmem s). \<exists>bs. dump s v = Written bs) \<and>
         (\<exists>bs. dump s (PyList (ord (u_keys s))) = Written bs))"
    by (rule flush_returns_iff)
next
  assume f: "flush ord s = (Inr u, s')"
  from f obtain s1 bs where
    l: "flush_loop (map fst (inmem s)) s = (Inr (), s1)"
    and bs: "dump s (PyList (ord (u_keys s))) = Written bs"
    and s': "s' = s1\<lparr>files := (files s1)(''.keys'' \<mapsto> bs)\<rparr>"
    and sc: "same_config s s1"
    by (rule flush_Inr)
  have cfg: "dump s1 = dump s" "u_keys s1 = u_keys s" "u_key_to_filename s1 = u_key_to_filename s"
    using sc by (simp_all add: same_config_def)
  have l1: "fst (flush_loop (map fst (inmem s)) s) = Inr ()"
    and l2: "snd (flush_loop (map fst (inmem s)) s) = s1" using l by simp_all
  have e1: "inmem s1 = []"
    using flush_loop_empties [of s "map fst (inmem s)", OF _ l1] l2 by simp
  have empty: "inmem s' = []" using e1 s' by simp
  have keys: "u_keys s' = u_keys s" using cfg s' by simp
  have manifest: "\<exists>bs. dump s (PyList (ord (u_keys s))) = Written bs \<and> files s' ''.keys'' = Some bs"
    using bs s' by simp
  have filed: "has_file s' k" if "in_memory s k" for k
  proof -
    from that have "k \<in> set (map fst (inmem s))"
      by (auto simp: in_memory_def map_of_eq_None_iff)
    then have "has_file s1 k"
      using flush_loop_has_file [OF that _ l1] l2 by blast
    then show ?thesis using s' cfg by (simp add: has_file_def)
  qed
  have content: "\<exists>bs. dump s v = Written bs \<and> files s' (u_key_to_filename s k) = Some bs"
    if d: "distinct (map fst (inmem s))"
      and inj: "inj_on (u_key_to_filename s) (fst ` set (inmem s))"
      and nk: "\<forall>k. in_memory s k \<longrightarrow> u_key_to_filename s k \<noteq> ''.keys''"
      and kv: "map_of (inmem s) k = Some v" for k v
  proof -
    have kd: "k \<in> fst ` set (inmem s)" using map_of_SomeD [OF kv] by force
    then have "k \<in> set (map fst (inmem s))" by simp
    with flush_loop_content [OF d inj _ kv l1] l2
    obtain b where b: "dump s v = Written b" "files s1 (u_key_to_filename s k) = Some b"
      by auto
    have "u_key_to_filename s k \<noteq> ''.keys''" using nk kv by (simp add: in_memory_def)
    then show ?thesis using b s' by simp
  qed
  have again: "flush ord s' = (Inr (), s')"
  proof -
    have "flush_loop (map fst (inmem s')) s' = (Inr (), s')" using empty by simp
    moreover have "write_keys ord s' = (Inr (), s')"
      using bs s' cfg by (simp add: write_keys_def)
    ultimately show ?thesis by (simp add: flush_def)
  qed
  show "inmem s' = [] \<and> u_keys s' = u_keys s \<and>
      (\<exists>bs. dump s (PyList (ord (u_keys s))) = Written bs \<and> files s' ''.keys'' = Some bs) \<and>
      (\<forall>k. in_memory s k \<longrightarrow> has_file s' k) \<and>
      (distinct (map fst (inmem s)) \<and> inj_on (u_key_to_filename s) (fst ` set (inmem s)) \<and>
       (\<forall>k. in_memory s k \<longrightarrow> u_key_to_filename s k \<noteq> ''.keys'') \<longrightarrow>
         (\<forall>k v. map_of (inmem s) k = Some v \<longrightarrow>
            (\<exists>bs. dump s v = Written bs \<and> files s' (u_key_to_filename s k) = Some bs))) \<and>
      flush ord s' = (Inr (), s')"
    using empty keys manifest filed content again by blast
qed

theorem flush_moves_all_and_is_idempotent_witness:
  "fst (flush ex_reversed ex_two) = Inr () \<and>
   flush ex_reversed ex_two = (Inr (), ex_two_flushed) \<and> inmem ex_two_flushed = [] \<and>
   files ex_two_flushed ''.keys'' = Some ''Lba'' \<and>
   files ex_two_flushed ''a'' = Some ''Ahello'' \<and> files ex_two_flushed ''b'' = Some ''Abye'' \<and>
   flush ex_reversed ex_two_flushed = (Inr (), ex_two_flushed)"
proof -
  note t = flush_moves_all_and_is_idempotent [of ex_two ex_reversed "()" ex_two_flushed]
  have d: "distinct (map fst (inmem ex_two))"
    by (simp add: ex_two_def)
  have v: "\<forall>v \<in> snd ` set (inmem ex_two). \<exists>bs. dump ex_two v = Written bs"
    by (simp add: ex_two_def ex_chest_def ex_dump_def)
  have m: "\<exists>bs. dump ex_two (PyList (ex_reversed (u_keys ex_two))) = Written bs"
    by (simp add: ex_two_def ex_chest_def ex_dump_def)
  from t d v m have r: "fst (flush ex_reversed ex_two) = Inr ()" by blast
  have h: "flush ex_reversed ex_two = (Inr (), ex_two_flushed)"
    by (simp add: flush_def move_to_disk_def write_keys_def ex_two_def ex_two_flushed_def
        ex_chest_def ex_dump_def ex_name_def ex_reversed_def)
  have pre: "inj_on (u_key_to_filename ex_two) (fst ` set (inmem ex_two)) \<and>
        (\<forall>k. in_memory ex_two k \<longrightarrow> u_key_to_filename ex_two k \<noteq> ''.keys'')"
    by (simp add: ex_two_def ex_chest_def ex_name_def)
  from t h d pre
  have c: "\<forall>k v. map_of (inmem ex_two) k = Some v \<longrightarrow>
          (\<exists>bs. dump ex_two v = Written bs \<and>
                files ex_two_flushed (u_key_to_filename ex_two k) = Some bs)"
    by blast
  have "map_of (inmem ex_two) (CHR ''a'') = Some (Atom ''hello'')"
    by (simp add: ex_two_def)
  with c have "\<exists>bs. dump ex_two (Atom ''hello'') = Written bs \<and>
      files ex_two_flushed (u_key_to_filename ex_two (CHR ''a'')) = Some bs"
    by blast
  then have a: "files ex_two_flushed ''a'' = Some ''Ahello''"
    by (simp add: ex_two_def ex_chest_def ex_dump_def ex_name_def)
  have "map_of (inmem ex_two) (CHR ''b'') = Some (Atom ''bye'')"
    by (simp add: ex_two_def)
  with c have "\<exists>bs. dump ex_two (Atom ''bye'') = Written bs \<and>
      files ex_two_flushed (u_key_to_filename ex_two (CHR ''b'')) = Some bs"
    by blast
  then have b: "files ex_two_flushed ''b'' = Some ''Abye''"
    by (simp add: ex_two_def ex_chest_def ex_dump_def ex_name_def)
  from t h have "\<exists>bs. dump ex_two (PyList (ex_reversed (u_keys ex_two))) = Written bs \<and>
      files ex_two_flushed ''.keys'' = Some bs" by blast
  then have k: "files ex_two_flushed ''.keys'' = Some ''Lba''"
    by (simp add: ex_two_def ex_chest_def ex_dump_def ex_reversed_def)
  from t h have e: "inmem ex_two_flushed = []" and again:
    "flush ex_reversed ex_two_flushed = (Inr (), ex_two_flushed)" by blast+
  show ?thesis using r h e k a b again by simp
qed

subsection \<open>The key set, the memory and the files\<close>

lemma names_ok_cong: "u_key_to_filename s' = u_key_to_filename s \<Longrightarrow> names_ok s' = names_ok s"
  by (simp add: names_ok_def)




lemma in_memory_iff: "in_memory s k = (k \<in> fst ` set (inmem s))"
  by (auto simp: in_memory_def map_of_eq_None_iff)

















subsection \<open>A store seeded with data\<close>

text \<open>No call of the interface breaks the inclusion of the in-memory keys in the key set.\<close>

lemma move_to_disk_tracked:
  "mem_tracked s \<Longrightarrow> move_to_disk key s = (r, s') \<Longrightarrow> mem_tracked s'"
  unfolding mem_tracked_def in_memory_def move_to_disk_def Let_def
  by (auto simp: AList.delete_conv' split: option.splits dumped.splits if_splits)

lemma shrink_loop_tracked:
  assumes "mem_tracked s"
  shows "mem_tracked (snd (shrink_loop nb stack mem s))"
  by (rule shrink_loop_rule [where I = "\<lambda>_ _ s'. mem_tracked s'" and Q = "\<lambda>_ s'. mem_tracked s'"])
     (auto intro: assms move_to_disk_tracked)

lemma shrink_tracked: "mem_tracked s \<Longrightarrow> mem_tracked (snd (shrink nb s))"
  by (simp add: shrink_def Let_def shrink_loop_tracked)

lemma flush_loop_tracked:
  assumes "mem_tracked s"
  shows "mem_tracked (snd (flush_loop ks s))"
  by (rule flush_loop_rule [where I = "\<lambda>_ s'. mem_tracked s'" and Q = "\<lambda>_ s'. mem_tracked s'"])
     (auto intro: assms move_to_disk_tracked)

lemma flush_tracked: "mem_tracked s \<Longrightarrow> mem_tracked (snd (flush ord s))"
proof -
  assume a: "mem_tracked s"
  have w: "mem_tracked t \<Longrightarrow> mem_tracked (snd (write_keys ord t))" for t :: "('a, 'b) chest"
    by (auto simp: mem_tracked_def in_memory_def write_keys_def split: dumped.splits)
  show ?thesis
    using flush_loop_tracked [OF a, of "map fst (inmem s)"] w
    by (auto simp: flush_def split: prod.splits sum.splits)
qed

lemma delitem_tracked: "mem_tracked s \<Longrightarrow> mem_tracked (snd (delitem key s))"
  unfolding mem_tracked_def in_memory_def delitem_def Let_def
  by (auto simp: AList.delete_conv' split: if_splits)

lemma insert_item_tracked: "mem_tracked s \<Longrightarrow> mem_tracked (insert_item key v s)"
  unfolding mem_tracked_def in_memory_def insert_item_def
  by (auto simp: AList.update_conv' split: if_splits)

lemma setitem_tracked: "mem_tracked s \<Longrightarrow> mem_tracked (snd (setitem nb key v s))"
  using delitem_tracked [of s key]
  by (auto simp: setitem_def shrink_tracked insert_item_tracked split: prod.splits sum.splits)

lemma get_from_disk_tracked:
  "mem_tracked s \<Longrightarrow> key \<in> set (u_keys s) \<Longrightarrow> mem_tracked (snd (get_from_disk key s))"
  unfolding mem_tracked_def in_memory_def get_from_disk_def
  by (auto simp: AList.update_conv' split: option.splits if_splits)

lemma getitem_tracked: "mem_tracked s \<Longrightarrow> mem_tracked (snd (getitem tlen nb key s))"
proof -
  assume a: "mem_tracked s"
  show ?thesis
  proof (cases "map_of (inmem s) key = None \<and> key \<in> set (u_keys s)")
    case False
    then show ?thesis using a by (auto simp: getitem_def split: option.splits)
  next
    case True
    obtain r s1 where g: "get_from_disk key s = (r, s1)" by (cases "get_from_disk key s")
    with get_from_disk_tracked [OF a, of key] True have "mem_tracked s1" by simp
    then show ?thesis using True g shrink_tracked [of s1 nb]
      by (auto simp: getitem_def split: sum.splits option.splits prod.splits)
  qed
qed

lemma perform_tracked: "mem_tracked s \<Longrightarrow> mem_tracked (perform tlen ord nb s c)"
  by (cases c) (simp_all add: setitem_tracked getitem_tracked delitem_tracked flush_tracked)

lemma perform_all_tracked: "mem_tracked s \<Longrightarrow> mem_tracked (perform_all tlen ord nb cs s)"
  unfolding perform_all_def by (induction cs arbitrary: s) (simp_all add: perform_tracked)

text \<open>
  C2, at the input where the code departs from it: a store constructed with the seed
  \<open>{a: hello}\<close> holds \<open>a\<close> in memory, but its key set is empty, so \<open>contains\<close> denies
  the key and \<open>len\<close> is 0.
\<close>

theorem seeded_store_key_untracked:
  "chest_init elements (Some [(CHR ''a'', Atom ''hello'')]) None None ex_dump ex_load ex_name
     = Inr ex_seeded \<and>
   in_memory ex_seeded (CHR ''a'') \<and> CHR ''a'' \<notin> set (u_keys ex_seeded) \<and>
   \<not> contains (CHR ''a'') ex_seeded \<and> len ex_seeded = 0"
  by (simp add: chest_init_def ex_seeded_def ex_chest_def in_memory_def contains_def len_def)

subsection \<open>The budget\<close>

text \<open>
  What a write that returns does establish: the footprint is at most the budget, or
  nothing is left in memory.
\<close>

lemma sum_list_delete:
  "distinct (map fst al) \<Longrightarrow> map_of al k = Some v \<Longrightarrow>
     sum_list (map f (map snd (AList.delete k al))) = sum_list (map f (map snd al)) - (f v :: int)"
proof (induction al)
  case Nil
  then show ?case by simp
next
  case (Cons p al)
  obtain k' v' where p: "p = (k', v')" by (cases p)
  show ?case
  proof (cases "k' = k")
    case True
    then have "k \<notin> fst ` set al" using Cons.prems p by auto
    then have "AList.delete k al = al" by simp
    then show ?thesis using True Cons.prems p by simp
  next
    case False
    then show ?thesis using Cons p by simp
  qed
qed

lemma shrink_loop_converges:
  assumes vo: "victims_ok stack s" and d: "distinct (map fst (inmem s))"
    and cover: "fst ` set (inmem s) \<subseteq> fst ` set stack" and m: "mem = memory_usage nb s"
    and ok: "fst (shrink_loop nb stack mem s) = Inr u"
  shows "memory_usage nb (snd (shrink_loop nb stack mem s))
           \<le> available_memory (snd (shrink_loop nb stack mem s)) \<or>
         inmem (snd (shrink_loop nb stack mem s)) = []"
proof -
  let ?I = "\<lambda>st m s1. victims_ok st s1 \<and> distinct (map fst (inmem s1)) \<and>
      fst ` set (inmem s1) \<subseteq> fst ` set st \<and> m = memory_usage nb s1"
  let ?Q = "\<lambda>r s1. r = Inr () \<longrightarrow> memory_usage nb s1 \<le> available_memory s1 \<or> inmem s1 = []"
  have "?Q (fst (shrink_loop nb stack mem s)) (snd (shrink_loop nb stack mem s))"
  proof (rule shrink_loop_rule [where I = ?I and Q = ?Q])
    show "?I stack mem s" using vo d cover m by simp
  next
    fix k data rest and m :: int and s1 :: "('a, 'b) chest" and u s2
    assume I: "?I ((k, data) # rest) m s1" and mv: "move_to_disk k s1 = (Inr u, s2)"
    from I have vo1: "victims_ok ((k, data) # rest) s1" and d1: "distinct (map fst (inmem s1))"
      and c1: "fst ` set (inmem s1) \<subseteq> fst ` set ((k, data) # rest)"
      and m1: "m = memory_usage nb s1" by blast+
    have hd: "map_of (inmem s1) k = Some data" using vo1 by (rule victims_ok_head)
    from move_to_disk_Inr [OF mv] have im2: "inmem s2 = AList.delete k (inmem s1)" by auto
    have "victims_ok rest s2" using vo1 mv by (rule victims_ok_step)
    moreover have "distinct (map fst (inmem s2))" using d1 im2 by (simp add: AList.distinct_delete)
    moreover have "fst ` set (inmem s2) \<subseteq> fst ` set rest"
    proof
      fix x assume x: "x \<in> fst ` set (inmem s2)"
      then have "x \<noteq> k" using AList.delete_notin_dom [of k "inmem s1"] im2 by auto
      moreover have "x \<in> fst ` set (inmem s1)"
        using x AList.dom_delete_subset [of k "inmem s1"] im2 by auto
      ultimately show "x \<in> fst ` set rest" using c1 by auto
    qed
    moreover have "m - nb data = memory_usage nb s2"
      using sum_list_delete [OF d1 hd, of nb] m1 im2 by (simp add: memory_usage_def)
    ultimately show "?I rest (m - nb data) s2" by simp
  next
    fix st and m :: int and s1 :: "('a, 'b) chest"
    assume I: "?I st m s1" and stop: "st = [] \<or> \<not> m > available_memory s1"
    then show "?Q (Inr ()) s1" by auto
  qed simp
  with ok show ?thesis by simp
qed

lemma shrink_converges:
  assumes "distinct (map fst (inmem s))" "fst (shrink nb s) = Inr u"
  shows "memory_usage nb (snd (shrink nb s)) \<le> available_memory (snd (shrink nb s)) \<or>
         inmem (snd (shrink nb s)) = []"
proof (cases "memory_usage nb s < available_memory s")
  case True
  then show ?thesis by (simp add: shrink_def)
next
  case False
  let ?st = "rev (sort_key (\<lambda>kv. nb (snd kv)) (inmem s))"
  have eq: "shrink nb s = shrink_loop nb ?st (memory_usage nb s) s"
    using False by (simp add: shrink_def Let_def)
  have c: "fst ` set (inmem s) \<subseteq> fst ` set ?st" by simp
  show ?thesis
    using shrink_loop_converges [OF victims_ok_sorted [OF assms(1)] assms(1) c refl] assms(2)
    unfolding eq by blast
qed

lemma setitem_converges:
  assumes "distinct (map fst (inmem s))" "fst (setitem nb key v s) = Inr u"
  shows "memory_usage nb (snd (setitem nb key v s)) \<le> available_memory (snd (setitem nb key v s)) \<or>
         inmem (snd (setitem nb key v s)) = []"
proof -
  define s0 where "s0 = (if key \<in> set (u_keys s) then snd (delitem key s) else s)"
  have set_eq: "setitem nb key v s = shrink nb (insert_item key v s0)"
    by (simp add: setitem_def s0_def delitem_present)
  have "inmem s0 = inmem s \<or> inmem s0 = AList.delete key (inmem s)"
    by (auto simp: s0_def delitem_def Let_def)
  then have "distinct (map fst (inmem (insert_item key v s0)))"
    using assms(1) by (auto simp: insert_item_def AList.distinct_update AList.distinct_delete)
  from shrink_converges [OF this, of nb] assms(2) show ?thesis unfolding set_eq by simp
qed

text \<open>
  C3, at the input where the code departs from it: with a budget of 10, writing a value
  of size 10 returns with the value in memory and a footprint of 10, which is not below
  the budget. \<^verbatim>\<open>shrink\<close> passes its first test (10 is not less than 10) and never enters
  its loop (10 is not greater than 10).
\<close>

theorem shrink_boundary_keeps_full_budget:
  "fst (setitem ex_nbytes (CHR ''a'') (Atom ''0123456789'') (ex_chest 10)) = Inr () \<and>
   \<not> (memory_usage ex_nbytes (snd (setitem ex_nbytes (CHR ''a'') (Atom ''0123456789'') (ex_chest 10)))
        < available_memory (snd (setitem ex_nbytes (CHR ''a'') (Atom ''0123456789'') (ex_chest 10))) \<or>
      inmem (snd (setitem ex_nbytes (CHR ''a'') (Atom ''0123456789'') (ex_chest 10))) = [])"
  by (simp add: op_defs ex_defs)

subsection \<open>Writing, then reading\<close>

lemma dump_total_cong: "same_config s s' \<Longrightarrow> dump_total s' = dump_total s"
  by (simp add: dump_total_def same_config_def)

lemma move_to_disk_total:
  assumes "dump_total s" "map_of (inmem s) key = Some v"
  obtains bs where "dump s v = Written bs"
    and "move_to_disk key s =
           (Inr (), s\<lparr>files := (files s)(u_key_to_filename s key \<mapsto> bs),
                      inmem := AList.delete key (inmem s)\<rparr>)"
proof -
  from assms(1) obtain bs where "dump s v = Written bs" unfolding dump_total_def by blast
  then show ?thesis using assms(2) that by (simp add: move_to_disk_def)
qed

lemma shrink_loop_keeps:
  assumes t: "dump_total s" and vo: "victims_ok stack s" and d: "distinct (map fst (inmem s))"
    and names: "\<forall>k' \<in> fst ` set stack. k' \<noteq> key \<longrightarrow> u_key_to_filename s k' \<noteq> u_key_to_filename s key"
    and kv: "map_of (inmem s) key = Some v" and bs: "dump s v = Written bs"
  shows "fst (shrink_loop nb stack mem s) = Inr () \<and>
         same_config s (snd (shrink_loop nb stack mem s)) \<and>
         distinct (map fst (inmem (snd (shrink_loop nb stack mem s)))) \<and>
         fst ` set (inmem (snd (shrink_loop nb stack mem s))) \<subseteq> fst ` set (inmem s) \<and>
         (map_of (inmem (snd (shrink_loop nb stack mem s))) key = Some v \<or>
          map_of (inmem (snd (shrink_loop nb stack mem s))) key = None \<and>
          files (snd (shrink_loop nb stack mem s)) (u_key_to_filename s key) = Some bs)"
proof -
  let ?fn = "u_key_to_filename s key"
  let ?J = "\<lambda>s1. same_config s s1 \<and> distinct (map fst (inmem s1)) \<and>
       fst ` set (inmem s1) \<subseteq> fst ` set (inmem s)"
  let ?I = "\<lambda>st (m :: int) s1. ?J s1 \<and> victims_ok st s1 \<and> set st \<subseteq> set stack \<and>
       (map_of (inmem s1) key = Some v \<or>
        map_of (inmem s1) key = None \<and> key \<notin> fst ` set st \<and> files s1 ?fn = Some bs)"
  let ?Q = "\<lambda>r s1. r = Inr () \<and> ?J s1 \<and>
       (map_of (inmem s1) key = Some v \<or> map_of (inmem s1) key = None \<and> files s1 ?fn = Some bs)"
  have "?Q (fst (shrink_loop nb stack mem s)) (snd (shrink_loop nb stack mem s))"
  proof (rule shrink_loop_rule [where I = ?I and Q = ?Q])
    show "?I stack mem s" using vo d kv by simp
  next
    fix k data rest and m :: int and s1 :: "('a, 'b) chest" and u s2
    assume I: "?I ((k, data) # rest) m s1" and mv: "move_to_disk k s1 = (Inr u, s2)"
    from I have sc: "same_config s s1" and d1: "distinct (map fst (inmem s1))"
      and sub1: "fst ` set (inmem s1) \<subseteq> fst ` set (inmem s)"
      and vo1: "victims_ok ((k, data) # rest) s1" and st: "set ((k, data) # rest) \<subseteq> set stack"
      and R: "map_of (inmem s1) key = Some v \<or>
        map_of (inmem s1) key = None \<and> key \<notin> fst ` set ((k, data) # rest) \<and> files s1 ?fn = Some bs"
      by blast+
    have cfg: "dump s1 = dump s" "u_key_to_filename s1 = u_key_to_filename s"
      using sc by (simp_all add: same_config_def)
    have hd: "map_of (inmem s1) k = Some data" using vo1 by (rule victims_ok_head)
    from move_to_disk_Inr [OF mv] hd obtain b where
      b: "dump s data = Written b"
      and fs2: "files s2 = (files s1)(u_key_to_filename s k \<mapsto> b)"
      and im2: "inmem s2 = AList.delete k (inmem s1)"
      unfolding cfg by auto
    have sc2: "same_config s s2"
      using sc move_to_disk_same_config [OF mv] by (rule same_config_trans)
    have d2: "distinct (map fst (inmem s2))" using d1 im2 by (simp add: AList.distinct_delete)
    have sub2: "fst ` set (inmem s2) \<subseteq> fst ` set (inmem s)"
      using sub1 AList.dom_delete_subset [of k "inmem s1"] unfolding im2 by blast
    have vo2: "victims_ok rest s2" using vo1 mv by (rule victims_ok_step)
    have krest: "k \<notin> fst ` set rest" using vo1 by (simp add: victims_ok_def)
    have R2: "map_of (inmem s2) key = Some v \<or>
        map_of (inmem s2) key = None \<and> key \<notin> fst ` set rest \<and> files s2 ?fn = Some bs"
    proof (cases "k = key")
      case True
      with R hd have "data = v" by auto
      with b bs have "b = bs" by simp
      then show ?thesis using True fs2 im2 krest by (simp add: AList.delete_conv')
    next
      case False
      have "k \<in> fst ` set stack" using st by force
      with names False have ne: "u_key_to_filename s k \<noteq> ?fn" by blast
      have "map_of (inmem s2) key = map_of (inmem s1) key" using False im2 by simp
      moreover have "files s2 ?fn = files s1 ?fn" using ne fs2 by simp
      ultimately show ?thesis using R by auto
    qed
    show "?I rest (m - nb data) s2" using sc2 d2 sub2 vo2 st R2 by simp
  next
    fix k data rest and m :: int and s1 :: "('a, 'b) chest" and e s2
    assume I: "?I ((k, data) # rest) m s1" and mv: "move_to_disk k s1 = (Inl e, s2)"
    from I have sc: "same_config s s1" and vo1: "victims_ok ((k, data) # rest) s1" by blast+
    have "dump_total s1" using t sc by (simp add: dump_total_cong)
    moreover have "map_of (inmem s1) k = Some data" using vo1 by (rule victims_ok_head)
    ultimately have "fst (move_to_disk k s1) = Inr ()"
      by (rule move_to_disk_total) simp
    with mv show "?Q (Inl e) s2" by simp
  next
    fix st and m :: int and s1 :: "('a, 'b) chest"
    assume "?I st m s1"
    then show "?Q (Inr ()) s1" by blast
  qed
  then show ?thesis by blast
qed

lemma shrink_keeps:
  assumes t: "dump_total s" and d: "distinct (map fst (inmem s))"
    and names: "\<forall>k'. in_memory s k' \<and> k' \<noteq> key \<longrightarrow> u_key_to_filename s k' \<noteq> u_key_to_filename s key"
    and kv: "map_of (inmem s) key = Some v" and bs: "dump s v = Written bs"
  shows "fst (shrink nb s) = Inr () \<and>
         same_config s (snd (shrink nb s)) \<and>
         distinct (map fst (inmem (snd (shrink nb s)))) \<and>
         fst ` set (inmem (snd (shrink nb s))) \<subseteq> fst ` set (inmem s) \<and>
         (map_of (inmem (snd (shrink nb s))) key = Some v \<or>
          map_of (inmem (snd (shrink nb s))) key = None \<and>
          files (snd (shrink nb s)) (u_key_to_filename s key) = Some bs)"
proof (cases "memory_usage nb s < available_memory s")
  case True
  then show ?thesis using d kv by (simp add: shrink_def)
next
  case False
  let ?st = "rev (sort_key (\<lambda>kv. nb (snd kv)) (inmem s))"
  have eq: "shrink nb s = shrink_loop nb ?st (memory_usage nb s) s"
    using False by (simp add: shrink_def Let_def)
  have n: "\<forall>k' \<in> fst ` set ?st. k' \<noteq> key \<longrightarrow> u_key_to_filename s k' \<noteq> u_key_to_filename s key"
    using names by (auto simp: in_memory_def map_of_eq_None_iff)
  show ?thesis unfolding eq
    by (rule shrink_loop_keeps [OF t victims_ok_sorted [OF d] d n kv bs])
qed


lemma in_insert_subset: "x \<in> A \<Longrightarrow> A \<subseteq> insert k B \<Longrightarrow> B \<subseteq> insert k C \<Longrightarrow> x = k \<or> x \<in> C"
  by blast

lemma get_from_disk_load:
  assumes "map_of (inmem s) key = None" "files s (u_key_to_filename s key) = Some bs"
    "load s bs = Some v"
  shows "get_from_disk key s = (Inr (), s\<lparr>inmem := AList.update key v (inmem s)\<rparr>)"
  using assms by (simp add: get_from_disk_def)

text \<open>
  C4, as stated, fails on the code. The serializer of the sample stores is inverted by
  their deserializer, yet in the store that is seeded with the key \<open>b\<close> and keeps every
  key in the file \<open>f\<close>, with a budget of 0, writing \<open>hello\<close> to \<open>a\<close> and reading \<open>a\<close> returns
  \<open>xy\<close>: the write spills \<open>a\<close> and then \<open>b\<close> to the same file.
\<close>

theorem round_trip_counterexample:
  "chest_init ex_elements (Some [(CHR ''b'', Atom ''xy'')]) None (Some 0) ex_dump ex_load
       (\<lambda>key. ''f'')
     = Inr ex_seeded_shared \<and>
   ex_dump (Atom ''hello'') = Written ''Ahello'' \<and> ex_load ''Ahello'' = Some (Atom ''hello'') \<and>
   fst (setitem ex_nbytes (CHR ''a'') (Atom ''hello'') ex_seeded_shared) = Inr () \<and>
   fst (getitem ex_len ex_nbytes (CHR ''a'')
         (snd (setitem ex_nbytes (CHR ''a'') (Atom ''hello'') ex_seeded_shared))) = Inr (Atom ''xy'')"
  by (simp add: chest_init_def ex_seeded_shared_def op_defs ex_defs)

text \<open>
  C4, amended. If the deserializer inverts the serializer (which never raises), the
  in-memory mapping is a dictionary, and no other key in memory has the file name of
  \<open>key\<close>, then writing \<open>v\<close> to \<open>key\<close> returns and reading \<open>key\<close> right after returns \<open>v\<close>,
  whether the value stayed in memory or was spilled.
\<close>

theorem write_then_read_returns_value:
  assumes inv: "\<forall>x. \<exists>bs. dump s x = Written bs \<and> load s bs = Some x"
    and d: "distinct (map fst (inmem s))"
    and names: "\<forall>k'. in_memory s k' \<and> k' \<noteq> key \<longrightarrow>
                  u_key_to_filename s k' \<noteq> u_key_to_filename s key"
  shows "fst (setitem nb key v s) = Inr () \<and>
         fst (getitem tlen nb key (snd (setitem nb key v s))) = Inr v"
proof -
  from inv obtain bs where bs: "dump s v = Written bs" and ld: "load s bs = Some v" by blast
  have t: "dump_total s" using inv unfolding dump_total_def by blast
  \<comment> \<open>the state the new value is inserted into\<close>
  define s0 where "s0 = (if key \<in> set (u_keys s) then snd (delitem key s) else s)"
  have s0_cfg: "dump s0 = dump s" "load s0 = load s" "u_key_to_filename s0 = u_key_to_filename s"
    by (simp_all add: s0_def delitem_def Let_def)
  have s0_mem: "inmem s0 = inmem s \<or> inmem s0 = AList.delete key (inmem s)"
    by (auto simp: s0_def delitem_def Let_def)
  have set_eq: "setitem nb key v s = shrink nb (insert_item key v s0)"
    by (simp add: setitem_def s0_def delitem_present)
  let ?s1 = "insert_item key v s0"
  have cfg1: "dump ?s1 = dump s" "load ?s1 = load s" "u_key_to_filename ?s1 = u_key_to_filename s"
    using s0_cfg by (simp_all add: insert_item_def)
  have t1: "dump_total ?s1" using t cfg1 by (simp add: dump_total_def)
  have d1: "distinct (map fst (inmem ?s1))"
    using d s0_mem by (auto simp: insert_item_def AList.distinct_update AList.distinct_delete)
  have dom0: "fst ` set (inmem s0) \<subseteq> fst ` set (inmem s)"
    using s0_mem AList.dom_delete_subset [of key "inmem s"] by fastforce
  have dom1: "fst ` set (inmem ?s1) \<subseteq> insert key (fst ` set (inmem s))"
    using dom0 by (auto simp: insert_item_def AList.dom_update)
  have mem1: "k' = key \<or> in_memory s k'" if "in_memory ?s1 k'" for k'
    using that dom1 subset_insertI unfolding in_memory_iff by (rule in_insert_subset)
  have n1: "\<forall>k'. in_memory ?s1 k' \<and> k' \<noteq> key \<longrightarrow>
      u_key_to_filename ?s1 k' \<noteq> u_key_to_filename ?s1 key"
    using names mem1 unfolding cfg1 by blast
  have kv1: "map_of (inmem ?s1) key = Some v" by (simp add: insert_item_def AList.update_conv')
  have key1: "key \<in> set (u_keys ?s1)" by (simp add: insert_item_def)
  have bs1: "dump ?s1 v = Written bs" using bs cfg1 by simp
  let ?s2 = "snd (shrink nb ?s1)"
  from shrink_keeps [OF t1 d1 n1 kv1 bs1, of nb] have
    ok2: "fst (shrink nb ?s1) = Inr ()" and sc2: "same_config ?s1 ?s2"
    and d2: "distinct (map fst (inmem ?s2))"
    and dom2: "fst ` set (inmem ?s2) \<subseteq> fst ` set (inmem ?s1)"
    and R2: "map_of (inmem ?s2) key = Some v \<or>
        map_of (inmem ?s2) key = None \<and> files ?s2 (u_key_to_filename ?s1 key) = Some bs"
    by blast+
  have cfg2: "dump ?s2 = dump s" "load ?s2 = load s" "u_key_to_filename ?s2 = u_key_to_filename s"
    "u_keys ?s2 = u_keys ?s1"
    using sc2 cfg1 by (simp_all add: same_config_def)
  have w: "fst (setitem nb key v s) = Inr ()" using ok2 set_eq by simp
  have r: "fst (getitem tlen nb key ?s2) = Inr v"
  proof (cases "map_of (inmem ?s2) key")
    case (Some x)
    with R2 have "x = v" by simp
    with Some show ?thesis by (simp add: getitem_def)
  next
    case None
    with R2 have f: "files ?s2 (u_key_to_filename ?s2 key) = Some bs" using cfg1 cfg2 by simp
    have l: "load ?s2 bs = Some v" using ld cfg2 by simp
    let ?s3 = "?s2\<lparr>inmem := AList.update key v (inmem ?s2)\<rparr>"
    have g: "get_from_disk key ?s2 = (Inr (), ?s3)" using None f l by (rule get_from_disk_load)
    have t3: "dump_total ?s3" using t cfg2 by (simp add: dump_total_def)
    have d3: "distinct (map fst (inmem ?s3))" using d2 by (simp add: AList.distinct_update)
    have kv3: "map_of (inmem ?s3) key = Some v" by (simp add: AList.update_conv')
    have "fst ` set (inmem ?s3) \<subseteq> insert key (fst ` set (inmem ?s2))"
      by (simp add: AList.dom_update)
    then have sub3: "fst ` set (inmem ?s3) \<subseteq> insert key (fst ` set (inmem ?s1))"
      using dom2 by (rule order_trans [OF _ insert_mono])
    have mem3: "k' = key \<or> in_memory s k'" if "in_memory ?s3 k'" for k'
      using that sub3 dom1 unfolding in_memory_iff by (rule in_insert_subset)
    have cfg3: "u_key_to_filename ?s3 = u_key_to_filename s" using cfg2 by simp
    have n3: "\<forall>k'. in_memory ?s3 k' \<and> k' \<noteq> key \<longrightarrow>
        u_key_to_filename ?s3 k' \<noteq> u_key_to_filename ?s3 key"
      using names mem3 unfolding cfg3 by blast
    have bs3: "dump ?s3 v = Written bs" using bs cfg2 by simp
    from shrink_keeps [OF t3 d3 n3 kv3 bs3, of nb] have "fst (shrink nb ?s3) = Inr ()" by blast
    then obtain s4 where "shrink nb ?s3 = (Inr (), s4)" by (cases "shrink nb ?s3") simp
    then show ?thesis using None g kv3 key1 cfg2
      by (simp add: getitem_def)
  qed
  show ?thesis using w r set_eq by simp
qed

theorem write_then_read_returns_value_witness:
  "fst (setitem ex_nbytes (CHR ''b'') (Atom ''0123456789'') ex_loaded) = Inr () \<and>
   \<not> in_memory (snd (setitem ex_nbytes (CHR ''b'') (Atom ''0123456789'') ex_loaded)) (CHR ''b'') \<and>
   fst (getitem ex_len ex_nbytes (CHR ''b'')
         (snd (setitem ex_nbytes (CHR ''b'') (Atom ''0123456789'') ex_loaded))) =
     Inr (Atom ''0123456789'')"
proof -
  have i: "\<forall>x. \<exists>bs. dump ex_loaded x = Written bs \<and> load ex_loaded bs = Some x"
    using ex_load_dump by (simp add: ex_loaded_def ex_chest_def)
  have d: "distinct (map fst (inmem ex_loaded))"
    by (simp add: ex_loaded_def)
  have n: "\<forall>k'. in_memory ex_loaded k' \<and> k' \<noteq> CHR ''b'' \<longrightarrow>
             u_key_to_filename ex_loaded k' \<noteq> u_key_to_filename ex_loaded (CHR ''b'')"
    by (simp add: ex_loaded_def ex_chest_def ex_name_def)
  have e: "\<not> in_memory (snd (setitem ex_nbytes (CHR ''b'') (Atom ''0123456789'') ex_loaded)) (CHR ''b'')"
    by (simp add: ex_loaded_def in_memory_def op_defs ex_defs)
  show ?thesis using write_then_read_returns_value [OF i d n, of ex_nbytes "Atom ''0123456789''"] e by simp
qed

subsection \<open>The default file name\<close>

lemma match_rest_words: "list_all is_word cs \<Longrightarrow> match_rest cs"
  by (induction cs) simp_all

lemma not_word_newline: "\<not> is_word (CHR 0x0A)"
  by (simp add: is_word_def is_letter_def is_digit_def)

lemma match_rest_iff:
  "match_rest cs = (list_all is_word cs \<or> (\<exists>ws. cs = ws @ [CHR 0x0A] \<and> list_all is_word ws))"
proof (induction cs)
  case Nil
  then show ?case by simp
next
  case (Cons c cs)
  show ?case
  proof (cases "is_word c")
    case True
    then show ?thesis using Cons
      by (auto simp: Cons_eq_append_conv)
  next
    case False
    then show ?thesis
      by (auto simp: Cons_eq_append_conv)
  qed
qed

lemma re_match_iff:
  "re_match key = (is_identifier key \<or> (\<exists>k. key = k @ [CHR 0x0A] \<and> is_identifier k))"
proof (cases key)
  case Nil
  then show ?thesis by (simp add: re_match_def is_identifier_def)
next
  case (Cons c cs)
  have "(\<exists>k. c # cs = k @ [CHR 0x0A] \<and> is_identifier k) =
        (is_first c \<and> (\<exists>ws. cs = ws @ [CHR 0x0A] \<and> list_all is_word ws))"
    (is "?L = ?R")
  proof
    assume ?L
    then obtain k where k: "c # cs = k @ [CHR 0x0A]" "is_identifier k" by blast
    then obtain d ws where "k = d # ws" by (cases k) (simp_all add: is_identifier_def)
    with k show ?R by (simp add: is_identifier_def)
  next
    assume ?R
    then obtain ws where "is_first c" "cs = ws @ [CHR 0x0A]" "list_all is_word ws" by blast
    then have "c # cs = (c # ws) @ [CHR 0x0A] \<and> is_identifier (c # ws)"
      by (simp add: is_identifier_def)
    then show ?L by blast
  qed
  then show ?thesis using Cons
    by (auto simp: re_match_def is_identifier_def match_rest_iff)
qed

lemma key_to_filename_identifier:
  "is_identifier key \<Longrightarrow> key_to_filename hash (PyStr key) = key"
  by (simp add: re_match_iff)

lemma key_to_filename_digest:
  "key_to_filename hash (PyOther x) = str_nat (nat \<bar>hash (PyOther x)\<bar>)"
  "\<not> re_match key \<Longrightarrow> key_to_filename hash (PyStr key) = str_nat (nat \<bar>hash (PyStr key)\<bar>)"
  by simp_all

lemma str_nat_numeral:
  "str_nat (numeral w) =
     (if numeral w < (10::nat) then [digit_char (numeral w)]
      else str_nat (numeral w div 10) @ [digit_char (numeral w mod 10)])"
  by (rule str_nat.simps)

lemma str_nat_small: "str_nat 0 = ''0''" "str_nat 1 = ''1''" "str_nat (Suc 0) = ''1''"
  by (simp_all add: str_nat.simps digit_char_def)

lemma key_to_filename_examples:
  "key_to_filename hash (PyStr ''valid_name'') = ''valid_name''"
  "key_to_filename (\<lambda>k. - 1234567) (PyOther x) = ''1234567''"
  "key_to_filename (\<lambda>k. 100) (PyStr ''9 lives'') = ''100''"
  by (simp_all add: str_nat_numeral str_nat_small digit_char_def re_match_def is_first_def
      is_word_def is_letter_def is_digit_def)

text \<open>
  C8, at the input where the code departs from it: the string \<open>abc\<close> followed by a newline
  is not an identifier, yet it is its own file name, whatever its hash: \<^verbatim>\<open>$\<close> matches
  before a final newline.
\<close>

theorem key_to_filename_trailing_newline:
  "\<not> is_identifier (''abc'' @ [CHR 0x0A]) \<and>
   key_to_filename hash (PyStr (''abc'' @ [CHR 0x0A])) = ''abc'' @ [CHR 0x0A]"
  by (simp add: is_identifier_def re_match_def is_first_def is_word_def is_letter_def is_digit_def)

end
